theory Spec2Isabelle
  imports Main
begin

section \<open>The syntax tree read by the rule\<close>

text \<open>
  The rule \<^verbatim>\<open>prefer-const-enum\<close> (\<^verbatim>\<open>src/rules/preferConstEnumRule.ts\<close>) reads a parsed
  TypeScript tree. Only the node kinds the rule tells apart are constructors of their own;
  every other kind is \<open>Other\<close> with its children in source order, which is all the rule
  asks of such a node (\<^verbatim>\<open>ts.forEachChild\<close>). A numeric literal is a leaf like any other, and
  is kept apart only because a literal computed member name has a canonical name.

  An enum declaration carries its modifiers, the text of its name token, its members in
  source order, and the two offsets the rule asks for: \<^verbatim>\<open>getStart(sourceFile)\<close> of the
  declaration and \<^verbatim>\<open>getEnd()\<close> of its name token. Decorators are not part of the model.
\<close>

datatype modifier = ExportKeyword | ConstKeyword | DeclareKeyword

datatype node =
    Identifier string
  | StringLiteral string
  | NumericLiteral string
  | PropertyAccessExpression node string
  | ElementAccessExpression node "node option"
  | ExportAssignment node
  | EnumDeclarationNode enum_declaration
  | Other "node list"
and enum_declaration =
    EnumDeclaration (modifiers: "modifier list") (decl_name: string)
      (decl_members: "enum_member list") (getStart: nat) (name_getEnd: nat)
and enum_member =
    EnumMember (member_name: property_name) (initializer: "node option")
and property_name =
    IdentifierName string
  | StringLiteralName string
  | NumericLiteralName string
  | ComputedPropertyName node

text \<open>
  In \<open>PropertyAccessExpression e n\<close> the string \<open>n\<close> is the text of the name token, which is
  an identifier node of its own in the tree: both traversals below visit it after \<open>e\<close>.
  In \<open>ElementAccessExpression e a\<close> the argument may be missing (\<^verbatim>\<open>argumentExpression\<close> is
  optional in the tree).
\<close>

definition hasModifier :: "modifier list \<Rightarrow> modifier \<Rightarrow> bool" where
  "hasModifier ms k = (k \<in> set ms)"

text \<open>
  Modelled from the spec: \<^verbatim>\<open>getPropertyName\<close>, imported from \<^verbatim>\<open>../src/utils\<close>, is not among
  the sources. The spec gives a member's canonical name as ``resolved from plain
  identifier, string literal, or literal-computed name; no canonical name if computed
  dynamically''. \<open>None\<close> is JavaScript's \<^verbatim>\<open>undefined\<close>.
\<close>

fun getPropertyName :: "property_name \<Rightarrow> string option" where
  "getPropertyName (IdentifierName t) = Some t"
| "getPropertyName (StringLiteralName t) = Some t"
| "getPropertyName (NumericLiteralName t) = Some t"
| "getPropertyName (ComputedPropertyName (StringLiteral t)) = Some t"
| "getPropertyName (ComputedPropertyName (NumericLiteral t)) = Some t"
| "getPropertyName (ComputedPropertyName _) = None"

section \<open>The registry of tracked enums\<close>

text \<open>
  \<^verbatim>\<open>IEnum\<close> is the tracking structure. Its member map is keyed by what
  \<^verbatim>\<open>getPropertyName\<close> returns, so a member without a canonical name is stored under
  \<open>None\<close>; every lookup uses a string, \<open>Some t\<close>.

  \<^verbatim>\<open>_enums\<close> is a JavaScript \<^verbatim>\<open>Map\<close>: it keeps its keys in insertion order, which is the
  order \<^verbatim>\<open>forEach\<close> reports in, so the registry is an association list. A new key goes to
  the end. The tracking structures are only ever reached through the registry, one per
  name, so assigning to a field of the structure found under a name is \<open>modify\<close> at that
  name.
\<close>

record IEnum =
  name :: string
  isConst :: bool
  occurences :: "enum_declaration list"
  members :: "string option \<Rightarrow> bool option"
  canBeConst :: bool

type_synonym registry = "(string \<times> IEnum) list"

definition getEnumInScope :: "string \<Rightarrow> registry \<Rightarrow> IEnum option" where
  "getEnumInScope n enums = map_of enums n"

definition modify :: "string \<Rightarrow> (IEnum \<Rightarrow> IEnum) \<Rightarrow> registry \<Rightarrow> registry" where
  "modify n f enums = map (\<lambda>(k, track). if k = n then (k, f track) else (k, track)) enums"

definition addEnum :: "enum_declaration \<Rightarrow> registry \<Rightarrow> registry" where
  "addEnum node enums =
     (let enums' =
        (case map_of enums (decl_name node) of
           None \<Rightarrow>
             enums @ [(decl_name node,
               \<lparr>name = decl_name node,
                isConst = hasModifier (modifiers node) ConstKeyword,
                occurences = [],
                members = Map.empty,
                canBeConst = True\<rparr>)]
         | Some _ \<Rightarrow> enums)
      in modify (decl_name node) (\<lambda>track. track\<lparr>occurences := occurences track @ [node]\<rparr>) enums')"

section \<open>The initializer evaluator\<close>

text \<open>
  \<^verbatim>\<open>_isConstInitializer\<close> walks the initializer with a callback that shares two pieces of
  state: the captured flag \<^verbatim>\<open>isConst\<close>, which starts true and is only ever set to false, and
  the registry, where an indexed access may clear \<^verbatim>\<open>canBeConst\<close>. The callback's state is
  the pair of both. The member map it reads is the enclosing enum's, which the evaluation
  itself never writes, so it is an argument.
\<close>

type_synonym eval_state = "bool \<times> registry"

text \<open>The identifier branch: \<^verbatim>\<open>if (!members.get(current.text)) isConst = false; return;\<close>\<close>

definition cb_identifier ::
  "(string option \<Rightarrow> bool option) \<Rightarrow> string \<Rightarrow> eval_state \<Rightarrow> eval_state" where
  "cb_identifier ms t s = (if ms (Some t) = Some True then s else (False, snd s))"

text \<open>
  The property access branch returns at once when its base is an identifier naming a
  tracked enum and its name is a member of that enum recorded constant.
\<close>

definition propertyAccessResolved :: "node \<Rightarrow> string \<Rightarrow> registry \<Rightarrow> bool" where
  "propertyAccessResolved e n enums =
     (case e of
        Identifier t \<Rightarrow>
          (case getEnumInScope t enums of
             Some track \<Rightarrow> members track (Some n) = Some True
           | None \<Rightarrow> False)
      | _ \<Rightarrow> False)"

text \<open>
  The indexed access branch: \<open>None\<close> is its early \<^verbatim>\<open>return\<close>; otherwise the registry it
  leaves behind, with which the callback sets \<^verbatim>\<open>isConst = false\<close> and goes on to the
  children.
\<close>

definition elementAccessCheck :: "node \<Rightarrow> node option \<Rightarrow> registry \<Rightarrow> registry option" where
  "elementAccessCheck e arg enums =
     (case e of
        Identifier t \<Rightarrow>
          (case getEnumInScope t enums of
             Some track \<Rightarrow>
               (case arg of
                  Some (StringLiteral k) \<Rightarrow>
                    if members track (Some k) = Some True then None else Some enums
                | _ \<Rightarrow> Some (modify t (\<lambda>tr. tr\<lparr>canBeConst := False\<rparr>) enums))
           | None \<Rightarrow> Some enums)
      | _ \<Rightarrow> Some enums)"

text \<open>
  The callback \<^verbatim>\<open>cb\<close> of \<^verbatim>\<open>_isConstInitializer\<close>. A node that is no identifier, property
  access or indexed access is handed to \<^verbatim>\<open>ts.forEachChild\<close> with the same callback. That
  holds for an enum declaration nested in the initializer too: its name token is visited,
  then its members, and in a member the name, then the initializer.
\<close>

function (sequential) init_cb :: "(string option \<Rightarrow> bool option) \<Rightarrow> node \<Rightarrow> eval_state \<Rightarrow> eval_state"
and init_cb_decl ::
  "(string option \<Rightarrow> bool option) \<Rightarrow> enum_declaration \<Rightarrow> eval_state \<Rightarrow> eval_state"
and init_cb_member ::
  "(string option \<Rightarrow> bool option) \<Rightarrow> enum_member \<Rightarrow> eval_state \<Rightarrow> eval_state"
and init_cb_name ::
  "(string option \<Rightarrow> bool option) \<Rightarrow> property_name \<Rightarrow> eval_state \<Rightarrow> eval_state"
where
  "init_cb ms (Identifier t) s = cb_identifier ms t s"
| "init_cb ms (PropertyAccessExpression e n) s =
     (if propertyAccessResolved e n (snd s) then s
      else cb_identifier ms n (init_cb ms e (False, snd s)))"
| "init_cb ms (ElementAccessExpression e arg) s =
     (case elementAccessCheck e arg (snd s) of
        None \<Rightarrow> s
      | Some enums' \<Rightarrow>
          (case arg of
             None \<Rightarrow> init_cb ms e (False, enums')
           | Some a \<Rightarrow> init_cb ms a (init_cb ms e (False, enums'))))"
| "init_cb ms (StringLiteral _) s = s"
| "init_cb ms (NumericLiteral _) s = s"
| "init_cb ms (ExportAssignment e) s = init_cb ms e s"
| "init_cb ms (EnumDeclarationNode d) s = init_cb_decl ms d s"
| "init_cb ms (Other cs) s = fold (init_cb ms) cs s"
| "init_cb_decl ms (EnumDeclaration mods n mems st en) s =
     fold (init_cb_member ms) mems (cb_identifier ms n s)"
| "init_cb_member ms (EnumMember pn ini) s =
     (case ini of
        None \<Rightarrow> init_cb_name ms pn s
      | Some e \<Rightarrow> init_cb ms e (init_cb_name ms pn s))"
| "init_cb_name ms (IdentifierName t) s = cb_identifier ms t s"
| "init_cb_name ms (StringLiteralName _) s = s"
| "init_cb_name ms (NumericLiteralName _) s = s"
| "init_cb_name ms (ComputedPropertyName e) s = init_cb ms e s"

  by pat_completeness auto

termination
  apply (relation "measure (\<lambda>x. case x of
      Inl (Inl (ms, n, s)) \<Rightarrow> size n
    | Inl (Inr (ms, d, s)) \<Rightarrow> size d
    | Inr (Inl (ms, m, s)) \<Rightarrow> size m
    | Inr (Inr (ms, p, s)) \<Rightarrow> size p)")
  apply (auto simp: termination_simp)
  done

definition isConstInitializer ::
  "node \<Rightarrow> (string option \<Rightarrow> bool option) \<Rightarrow> registry \<Rightarrow> bool \<times> registry" where
  "isConstInitializer ini ms enums = init_cb ms ini (True, enums)"

section \<open>The declaration processor\<close>

text \<open>
  One round of the loop over \<^verbatim>\<open>node.members\<close>. The structure \<^verbatim>\<open>track\<close> is the one
  \<^verbatim>\<open>_addEnum\<close> returned, found again under the declaration's name; it is always there, and
  the registry is returned as it is for a name that is not tracked.
\<close>

definition visitMember :: "string \<Rightarrow> enum_member \<Rightarrow> registry \<Rightarrow> registry" where
  "visitMember n member enums =
     (case map_of enums n of
        None \<Rightarrow> enums
      | Some track \<Rightarrow>
          (let (isConstMember, enums') =
                 (if isConst track then (True, enums)
                  else case initializer member of
                         None \<Rightarrow> (True, enums)
                       | Some ini \<Rightarrow> isConstInitializer ini (members track) enums)
           in modify n
                (\<lambda>tr. tr\<lparr>canBeConst := canBeConst tr \<and> isConstMember,
                          members := (members tr)(getPropertyName (member_name member) \<mapsto>
                                        isConstMember)\<rparr>)
                enums'))"

definition visitEnumDeclaration :: "enum_declaration \<Rightarrow> registry \<Rightarrow> registry" where
  "visitEnumDeclaration node enums =
     modify (decl_name node)
       (\<lambda>tr. tr\<lparr>canBeConst := canBeConst tr \<and> \<not> hasModifier (modifiers node) ExportKeyword\<rparr>)
       (fold (visitMember (decl_name node)) (decl_members node) (addEnum node enums))"

section \<open>The usage validator\<close>

text \<open>
  \<^verbatim>\<open>_checkUsage\<close> reads the identifier's parent and, for an indexed access, whether the
  identifier is the parent's \<^verbatim>\<open>expression\<close>. The tree has no parent pointers here, so the
  walk hands both down: the parent node and the place the child has in it.
\<close>

datatype child_role = ExpressionChild | NameChild | ArgumentChild | OtherChild

definition usageIgnored :: "node \<Rightarrow> child_role \<Rightarrow> bool" where
  "usageIgnored parent role =
     (case parent of
        PropertyAccessExpression _ _ \<Rightarrow> True
      | ExportAssignment _ \<Rightarrow> True
      | ElementAccessExpression _ arg \<Rightarrow>
          role = ExpressionChild \<and>
          (case arg of Some (StringLiteral _) \<Rightarrow> True | _ \<Rightarrow> False)
      | _ \<Rightarrow> False)"

definition checkUsage :: "node \<Rightarrow> child_role \<Rightarrow> string \<Rightarrow> registry \<Rightarrow> registry" where
  "checkUsage parent role t enums =
     (if usageIgnored parent role then enums
      else case getEnumInScope t enums of
             None \<Rightarrow> enums
           | Some _ \<Rightarrow> modify t (\<lambda>tr. tr\<lparr>canBeConst := False\<rparr>) enums)"

section \<open>The tree walk and the findings\<close>

text \<open>
  The callback of \<^verbatim>\<open>walk\<close>: an identifier goes to the usage validator and an enum
  declaration to the declaration processor, neither is descended into; the children of any
  other node are visited in source order.
\<close>

fun walk_cb :: "node \<Rightarrow> child_role \<Rightarrow> node \<Rightarrow> registry \<Rightarrow> registry" where
  "walk_cb parent role (Identifier t) enums = checkUsage parent role t enums"
| "walk_cb parent role (EnumDeclarationNode d) enums = visitEnumDeclaration d enums"
| "walk_cb parent role (StringLiteral _) enums = enums"
| "walk_cb parent role (NumericLiteral _) enums = enums"
| "walk_cb parent role (PropertyAccessExpression e n) enums =
     checkUsage (PropertyAccessExpression e n) NameChild n
       (walk_cb (PropertyAccessExpression e n) ExpressionChild e enums)"
| "walk_cb parent role (ElementAccessExpression e arg) enums =
     (case arg of
        None \<Rightarrow> walk_cb (ElementAccessExpression e arg) ExpressionChild e enums
      | Some a \<Rightarrow>
          walk_cb (ElementAccessExpression e arg) ArgumentChild a
            (walk_cb (ElementAccessExpression e arg) ExpressionChild e enums))"
| "walk_cb parent role (ExportAssignment e) enums =
     walk_cb (ExportAssignment e) ExpressionChild e enums"
| "walk_cb parent role (Other cs) enums = fold (walk_cb (Other cs) OtherChild) cs enums"

text \<open>
  A source file is given by its statements; as a parent it is a node of no special kind.
  \<open>enums_after\<close> is the registry when the traversal is over.
\<close>

definition enums_after :: "node list \<Rightarrow> registry" where
  "enums_after statements = fold (walk_cb (Other statements) OtherChild) statements []"

datatype replacement = Replacement nat nat string

record rule_failure =
  failure_start :: nat
  failure_end :: nat
  failure_message :: string
  failure_fix :: replacement

definition FAIL_MESSAGE :: string where
  "FAIL_MESSAGE = ''enum can be declared const''"

definition failure_of :: "enum_declaration \<Rightarrow> rule_failure" where
  "failure_of occurence =
     \<lparr>failure_start = getStart occurence,
      failure_end = name_getEnd occurence,
      failure_message = FAIL_MESSAGE,
      failure_fix = Replacement (getStart occurence) 0 ''const ''\<rparr>"

text \<open>
  The host's \<^verbatim>\<open>addFailureFromStartToEnd\<close> is taken to append the finding to the output.
\<close>

definition report_track :: "IEnum \<Rightarrow> rule_failure list \<Rightarrow> rule_failure list" where
  "report_track track failures =
     (if \<not> isConst track \<and> canBeConst track
      then fold (\<lambda>occurence fs. fs @ [failure_of occurence]) (occurences track) failures
      else failures)"

definition report :: "registry \<Rightarrow> rule_failure list" where
  "report enums = fold (\<lambda>(k, track). report_track track) enums []"

definition walk :: "node list \<Rightarrow> rule_failure list" where
  "walk statements = report (enums_after statements)"

section \<open>What an initializer contains\<close>

text \<open>
  \<open>subnodes e\<close> lists every node of the tree below \<open>e\<close>, \<open>e\<close> first, in source order; the
  name token of a property access, of a nested enum declaration and of its members are
  among them. An indexed access is \<^emph>\<open>dynamic\<close> when its argument is missing or is not a
  string literal; \<open>dynamic_bases e\<close> lists the identifiers that are the base of a dynamic
  indexed access somewhere in \<open>e\<close>.
\<close>

function subnodes :: "node \<Rightarrow> node list"
and subnodes_decl :: "enum_declaration \<Rightarrow> node list"
and subnodes_member :: "enum_member \<Rightarrow> node list"
and subnodes_name :: "property_name \<Rightarrow> node list"
where
  "subnodes (Identifier t) = [Identifier t]"
| "subnodes (StringLiteral t) = [StringLiteral t]"
| "subnodes (NumericLiteral t) = [NumericLiteral t]"
| "subnodes (PropertyAccessExpression e n) =
     PropertyAccessExpression e n # subnodes e @ [Identifier n]"
| "subnodes (ElementAccessExpression e arg) =
     ElementAccessExpression e arg # subnodes e @
       (case arg of None \<Rightarrow> [] | Some a \<Rightarrow> subnodes a)"
| "subnodes (ExportAssignment e) = ExportAssignment e # subnodes e"
| "subnodes (EnumDeclarationNode d) = EnumDeclarationNode d # subnodes_decl d"
| "subnodes (Other cs) = Other cs # concat (map subnodes cs)"
| "subnodes_decl (EnumDeclaration mods n mems st en) =
     Identifier n # concat (map subnodes_member mems)"
| "subnodes_member (EnumMember pn ini) =
     subnodes_name pn @ (case ini of None \<Rightarrow> [] | Some e \<Rightarrow> subnodes e)"
| "subnodes_name (IdentifierName t) = [Identifier t]"
| "subnodes_name (StringLiteralName t) = [StringLiteral t]"
| "subnodes_name (NumericLiteralName t) = [NumericLiteral t]"
| "subnodes_name (ComputedPropertyName e) = subnodes e"
  by pat_completeness auto

termination
  apply (relation "measure (\<lambda>x. case x of
      Inl (Inl n) \<Rightarrow> size n
    | Inl (Inr d) \<Rightarrow> size d
    | Inr (Inl m) \<Rightarrow> size m
    | Inr (Inr p) \<Rightarrow> size p)")
  apply (auto simp: termination_simp)
  done

definition isStringLiteralArg :: "node option \<Rightarrow> bool" where
  "isStringLiteralArg arg = (case arg of Some (StringLiteral _) \<Rightarrow> True | _ \<Rightarrow> False)"

fun dynamic_base :: "node \<Rightarrow> string list" where
  "dynamic_base (ElementAccessExpression (Identifier t) arg) =
     (if isStringLiteralArg arg then [] else [t])"
| "dynamic_base _ = []"

definition dynamic_bases :: "node \<Rightarrow> string list" where
  "dynamic_bases e = concat (map dynamic_base (subnodes e))"

definition clear_all :: "string list \<Rightarrow> registry \<Rightarrow> registry" where
  "clear_all ts enums = fold (\<lambda>t. modify t (\<lambda>tr. tr\<lparr>canBeConst := False\<rparr>)) ts enums"

text \<open>
  An indexed access is \<^emph>\<open>unresolved\<close> in a registry when the indexed access branch does not
  return early on it there.
\<close>

definition unresolved_access :: "registry \<Rightarrow> node \<Rightarrow> bool" where
  "unresolved_access enums x =
     (case x of ElementAccessExpression b arg \<Rightarrow> elementAccessCheck b arg enums \<noteq> None
      | _ \<Rightarrow> False)"

section \<open>Example programs\<close>

text \<open>
  \<^verbatim>\<open>enum A { X = 1 }\<close>, the registry after a run over it alone, and the tracking structure
  that registry holds for \<open>A\<close>.
\<close>

definition enum_A :: enum_declaration where
  "enum_A =
     EnumDeclaration [] ''A'' [EnumMember (IdentifierName ''X'') (Some (NumericLiteral ''1''))] 0 6"

definition registry_A :: registry where
  "registry_A = enums_after [EnumDeclarationNode enum_A]"

definition track_A :: IEnum where
  "track_A = \<lparr>name = ''A'', isConst = False, occurences = [enum_A],
     members = [Some ''X'' \<mapsto> True], canBeConst = True\<rparr>"

text \<open>
  \<^verbatim>\<open>enum B { Y = A.X }\<close>, declared after \<open>A\<close>, and the tracking structure a run over both
  ends with for \<open>B\<close>.
\<close>

definition enum_B :: enum_declaration where
  "enum_B =
     EnumDeclaration [] ''B''
       [EnumMember (IdentifierName ''Y'') (Some (PropertyAccessExpression (Identifier ''A'') ''X''))]
       20 26"

definition track_B :: IEnum where
  "track_B = \<lparr>name = ''B'', isConst = False, occurences = [enum_B],
     members = [Some ''Y'' \<mapsto> True], canBeConst = True\<rparr>"



definition enum_C :: enum_declaration where
  "enum_C =
     EnumDeclaration [] ''C''
       [EnumMember (IdentifierName ''A'') None,
        EnumMember (IdentifierName ''Y'') (Some (Identifier ''A''))]
       20 26"

definition enum_D :: enum_declaration where
  "enum_D =
     EnumDeclaration [] ''D'' [EnumMember (IdentifierName ''Y'') (Some (Identifier ''A''))] 20 26"

section \<open>The run as a sequence of dispatches\<close>

text \<open>
  The walk does two things to the registry: it hands an identifier to the usage validator,
  with the identifier's parent and place, and it hands an enum declaration to the
  declaration processor. \<open>walk_events\<close> lists these dispatches in the order the walk makes
  them, and \<open>run_events\<close> those of a whole run; \<open>walk_cb\<close> is the fold of \<open>apply_event\<close> over
  them (lemma \<open>walk_cb_events\<close>). \<open>declarations\<close> are the declarations of a run that reach
  the declaration processor, in order.
\<close>

datatype event = Usage node child_role string | Declaration enum_declaration

fun apply_event :: "event \<Rightarrow> registry \<Rightarrow> registry" where
  "apply_event (Usage parent role t) enums = checkUsage parent role t enums"
| "apply_event (Declaration d) enums = visitEnumDeclaration d enums"

fun walk_events :: "node \<Rightarrow> child_role \<Rightarrow> node \<Rightarrow> event list" where
  "walk_events parent role (Identifier t) = [Usage parent role t]"
| "walk_events parent role (EnumDeclarationNode d) = [Declaration d]"
| "walk_events parent role (StringLiteral _) = []"
| "walk_events parent role (NumericLiteral _) = []"
| "walk_events parent role (PropertyAccessExpression e n) =
     walk_events (PropertyAccessExpression e n) ExpressionChild e @
     [Usage (PropertyAccessExpression e n) NameChild n]"
| "walk_events parent role (ElementAccessExpression e arg) =
     walk_events (ElementAccessExpression e arg) ExpressionChild e @
     (case arg of
        None \<Rightarrow> []
      | Some a \<Rightarrow> walk_events (ElementAccessExpression e arg) ArgumentChild a)"
| "walk_events parent role (ExportAssignment e) =
     walk_events (ExportAssignment e) ExpressionChild e"
| "walk_events parent role (Other cs) = concat (map (walk_events (Other cs) OtherChild) cs)"

definition run_events :: "node list \<Rightarrow> event list" where
  "run_events statements = concat (map (walk_events (Other statements) OtherChild) statements)"

fun declaration_of :: "event \<Rightarrow> enum_declaration list" where
  "declaration_of (Declaration d) = [d]"
| "declaration_of (Usage _ _ _) = []"

definition declarations :: "node list \<Rightarrow> enum_declaration list" where
  "declarations statements = concat (map declaration_of (run_events statements))"

text \<open>
  The canonical names of a declaration's members, and the identifiers that are the base of
  a dynamic indexed access in one of its member initializers.
\<close>

definition canonical_names :: "enum_declaration \<Rightarrow> string option list" where
  "canonical_names d = map (\<lambda>m. getPropertyName (member_name m)) (decl_members d)"

definition member_bases :: "enum_member \<Rightarrow> string list" where
  "member_bases m = (case initializer m of None \<Rightarrow> [] | Some ini \<Rightarrow> dynamic_bases ini)"

definition initializer_bases :: "enum_declaration \<Rightarrow> string list" where
  "initializer_bases d = concat (map member_bases (decl_members d))"

text \<open>
  A dispatch \<^emph>\<open>disqualifies\<close> the name \<open>n\<close> when it is a usage of \<open>n\<close> that the usage validator
  does not ignore, or a declaration with a dynamic indexed access on \<open>n\<close> in a member
  initializer.
\<close>

fun disqualifies :: "string \<Rightarrow> event \<Rightarrow> bool" where
  "disqualifies n (Usage parent role t) = (t = n \<and> \<not> usageIgnored parent role)"
| "disqualifies n (Declaration d) = (n \<in> set (initializer_bases d))"

text \<open>
  \<open>never_raised enums enums'\<close>: every enum tracked in \<open>enums\<close> is still tracked in \<open>enums'\<close>,
  and has \<open>canBeConst\<close> there only if it had it before.
\<close>

definition never_raised :: "registry \<Rightarrow> registry \<Rightarrow> bool" where
  "never_raised enums enums' =
     (\<forall>n track. getEnumInScope n enums = Some track \<longrightarrow>
        (\<exists>track'. getEnumInScope n enums' = Some track' \<and>
           (canBeConst track' \<longrightarrow> canBeConst track)))"

text \<open>What the member loop does to the tracking structure of the enum being declared.\<close>

definition record_member :: "string option \<Rightarrow> bool \<Rightarrow> IEnum \<Rightarrow> IEnum" where
  "record_member key b tr =
     tr\<lparr>canBeConst := canBeConst tr \<and> b, members := (members tr)(key \<mapsto> b)\<rparr>"

definition member_update :: "string option set \<Rightarrow> (IEnum \<Rightarrow> IEnum) \<Rightarrow> bool" where
  "member_update K F =
     (\<forall>tr. name (F tr) = name tr \<and> isConst (F tr) = isConst tr \<and>
           occurences (F tr) = occurences tr \<and>
           dom (members (F tr)) = dom (members tr) \<union> K \<and>
           (\<forall>k. k \<notin> K \<longrightarrow> members (F tr) k = members tr k) \<and>
           (canBeConst (F tr) \<longrightarrow> canBeConst tr) \<and>
           F (tr\<lparr>canBeConst := False\<rparr>) = (F tr)\<lparr>canBeConst := False\<rparr>)"

text \<open>
  The tracking structure \<^verbatim>\<open>_addEnum\<close> finds or creates for a declaration, before it appends
  the declaration to the occurrences.
\<close>

definition tracked_before :: "enum_declaration \<Rightarrow> registry \<Rightarrow> IEnum" where
  "tracked_before d enums =
     (case getEnumInScope (decl_name d) enums of
        None \<Rightarrow>
          \<lparr>name = decl_name d,
           isConst = hasModifier (modifiers d) ConstKeyword,
           occurences = [],
           members = Map.empty,
           canBeConst = True\<rparr>
      | Some track \<Rightarrow> track)"

text \<open>A second declaration of \<open>A\<close>, \<^verbatim>\<open>enum A { Y }\<close>, to be merged with the first.\<close>

definition enum_A_again :: enum_declaration where
  "enum_A_again =
     EnumDeclaration [] ''A'' [EnumMember (IdentifierName ''Y'') None] 20 26"

text \<open>
  \<open>entry_ok n ds enums\<close> relates the entry of the name \<open>n\<close> to the declarations \<open>ds\<close> of \<open>n\<close>
  processed so far: none and no entry, or the entry that merges them.
\<close>

definition entry_ok :: "string \<Rightarrow> enum_declaration list \<Rightarrow> registry \<Rightarrow> bool" where
  "entry_ok n ds enums =
     (if ds = [] then getEnumInScope n enums = None
      else \<exists>track. getEnumInScope n enums = Some track \<and>
             name track = n \<and>
             isConst track = hasModifier (modifiers (hd ds)) ConstKeyword \<and>
             occurences track = ds \<and>
             dom (members track) = (\<Union>d\<in>set ds. set (canonical_names d)) \<and>
             (canBeConst track \<longrightarrow> (\<forall>d\<in>set ds. \<not> hasModifier (modifiers d) ExportKeyword)))"

text \<open>The declarations of the name \<open>n\<close> among a list of dispatches.\<close>

definition declared :: "string \<Rightarrow> event list \<Rightarrow> enum_declaration list" where
  "declared n evs = filter (\<lambda>d. decl_name d = n) (concat (map declaration_of evs))"

text \<open>
  A declaration is \<^emph>\<open>plain\<close> when no member has an initializer and it carries neither the
  export nor the const modifier.
\<close>

definition plain :: "enum_declaration \<Rightarrow> bool" where
  "plain d =
     ((\<forall>m\<in>set (decl_members d). initializer m = None) \<and>
      \<not> hasModifier (modifiers d) ExportKeyword \<and>
      \<not> hasModifier (modifiers d) ConstKeyword)"

text \<open>
  \<^verbatim>\<open>export enum E { X = 1 }\<close> merged with \<^verbatim>\<open>export enum E { Y }\<close>; and
  \<^verbatim>\<open>enum Color { Red, Green, Blue }\<close>, used as \<^verbatim>\<open>Color.Red\<close> and as an argument in \<^verbatim>\<open>f(Color)\<close>.
\<close>

definition enum_E1 :: enum_declaration where
  "enum_E1 =
     EnumDeclaration [ExportKeyword] ''E''
       [EnumMember (IdentifierName ''X'') (Some (NumericLiteral ''1''))] 0 13"

definition enum_E2 :: enum_declaration where
  "enum_E2 =
     EnumDeclaration [ExportKeyword] ''E'' [EnumMember (IdentifierName ''Y'') None] 30 43"

definition enum_Color :: enum_declaration where
  "enum_Color =
     EnumDeclaration [] ''Color''
       [EnumMember (IdentifierName ''Red'') None,
        EnumMember (IdentifierName ''Green'') None,
        EnumMember (IdentifierName ''Blue'') None] 0 10"

definition Color_Red :: node where
  "Color_Red = Other [PropertyAccessExpression (Identifier ''Color'') ''Red'']"

definition f_Color :: node where
  "f_Color = Other [Other [Identifier ''f'', Identifier ''Color'']]"

section \<open>Recursion depth\<close>

text \<open>
  The nesting depth of a tree, counting every node, enum member and member name as one
  level, and the depth of the part of it the walk descends into, where an enum declaration is
  a leaf.
\<close>

function height :: "node \<Rightarrow> nat"
and height_decl :: "enum_declaration \<Rightarrow> nat"
and height_member :: "enum_member \<Rightarrow> nat"
and height_name :: "property_name \<Rightarrow> nat"
where
  "height (Identifier t) = 1"
| "height (StringLiteral t) = 1"
| "height (NumericLiteral t) = 1"
| "height (PropertyAccessExpression e n) = Suc (max (height e) 1)"
| "height (ElementAccessExpression e arg) =
     Suc (max (height e) (case arg of None \<Rightarrow> 0 | Some a \<Rightarrow> height a))"
| "height (ExportAssignment e) = Suc (height e)"
| "height (EnumDeclarationNode d) = Suc (height_decl d)"
| "height (Other cs) = Suc (fold max (map height cs) 0)"
| "height_decl (EnumDeclaration mods n mems st en) =
     Suc (fold max (map height_member mems) 1)"
| "height_member (EnumMember pn ini) =
     Suc (max (height_name pn) (case ini of None \<Rightarrow> 0 | Some e \<Rightarrow> height e))"
| "height_name (IdentifierName t) = 1"
| "height_name (StringLiteralName t) = 1"
| "height_name (NumericLiteralName t) = 1"
| "height_name (ComputedPropertyName e) = Suc (height e)"
  by pat_completeness auto

termination
  apply (relation "measure (\<lambda>x. case x of
      Inl (Inl n) \<Rightarrow> size n
    | Inl (Inr d) \<Rightarrow> size d
    | Inr (Inl m) \<Rightarrow> size m
    | Inr (Inr p) \<Rightarrow> size p)")
  apply (auto simp: termination_simp)
  done

fun walk_height :: "node \<Rightarrow> nat" where
  "walk_height (Identifier t) = 1"
| "walk_height (EnumDeclarationNode d) = 1"
| "walk_height (StringLiteral t) = 1"
| "walk_height (NumericLiteral t) = 1"
| "walk_height (PropertyAccessExpression e n) = Suc (max (walk_height e) 1)"
| "walk_height (ElementAccessExpression e arg) =
     Suc (max (walk_height e) (case arg of None \<Rightarrow> 0 | Some a \<Rightarrow> walk_height a))"
| "walk_height (ExportAssignment e) = Suc (walk_height e)"
| "walk_height (Other cs) = Suc (fold max (map walk_height cs) 0)"

text \<open>
  The two traversals again, with a budget for the depth of the recursion: every call of a
  callback takes one unit, and a call with no budget left gives \<open>None\<close>. \<open>fold_budget\<close> is
  the loop over the children, which stops at the first call that gives \<open>None\<close>.
\<close>

fun fold_budget :: "('a \<Rightarrow> 's \<Rightarrow> 's option) \<Rightarrow> 'a list \<Rightarrow> 's \<Rightarrow> 's option" where
  "fold_budget f [] s = Some s"
| "fold_budget f (x # xs) s = (case f x s of None \<Rightarrow> None | Some s' \<Rightarrow> fold_budget f xs s')"

function init_cb_budget ::
  "nat \<Rightarrow> (string option \<Rightarrow> bool option) \<Rightarrow> node \<Rightarrow> eval_state \<Rightarrow> eval_state option"
and init_cb_decl_budget ::
  "nat \<Rightarrow> (string option \<Rightarrow> bool option) \<Rightarrow> enum_declaration \<Rightarrow> eval_state \<Rightarrow> eval_state option"
and init_cb_member_budget ::
  "nat \<Rightarrow> (string option \<Rightarrow> bool option) \<Rightarrow> enum_member \<Rightarrow> eval_state \<Rightarrow> eval_state option"
and init_cb_name_budget ::
  "nat \<Rightarrow> (string option \<Rightarrow> bool option) \<Rightarrow> property_name \<Rightarrow> eval_state \<Rightarrow> eval_state option"
where
  "init_cb_budget 0 ms e s = None"
| "init_cb_budget (Suc b) ms (Identifier t) s = Some (cb_identifier ms t s)"
| "init_cb_budget (Suc b) ms (PropertyAccessExpression e n) s =
     (if propertyAccessResolved e n (snd s) then Some s
      else case init_cb_budget b ms e (False, snd s) of
             None \<Rightarrow> None
           | Some s' \<Rightarrow> init_cb_budget b ms (Identifier n) s')"
| "init_cb_budget (Suc b) ms (ElementAccessExpression e arg) s =
     (case elementAccessCheck e arg (snd s) of
        None \<Rightarrow> Some s
      | Some enums' \<Rightarrow>
          (case init_cb_budget b ms e (False, enums') of
             None \<Rightarrow> None
           | Some s' \<Rightarrow>
               (case arg of
                  None \<Rightarrow> Some s'
                | Some a \<Rightarrow> init_cb_budget b ms a s')))"
| "init_cb_budget (Suc b) ms (StringLiteral _) s = Some s"
| "init_cb_budget (Suc b) ms (NumericLiteral _) s = Some s"
| "init_cb_budget (Suc b) ms (ExportAssignment e) s = init_cb_budget b ms e s"
| "init_cb_budget (Suc b) ms (EnumDeclarationNode d) s = init_cb_decl_budget b ms d s"
| "init_cb_budget (Suc b) ms (Other cs) s = fold_budget (init_cb_budget b ms) cs s"
| "init_cb_decl_budget 0 ms d s = None"
| "init_cb_decl_budget (Suc b) ms (EnumDeclaration mods n mems st en) s =
     (case init_cb_budget b ms (Identifier n) s of
        None \<Rightarrow> None
      | Some s' \<Rightarrow> fold_budget (init_cb_member_budget b ms) mems s')"
| "init_cb_member_budget 0 ms m s = None"
| "init_cb_member_budget (Suc b) ms (EnumMember pn ini) s =
     (case init_cb_name_budget b ms pn s of
        None \<Rightarrow> None
      | Some s' \<Rightarrow>
          (case ini of
             None \<Rightarrow> Some s'
           | Some e \<Rightarrow> init_cb_budget b ms e s'))"
| "init_cb_name_budget 0 ms pn s = None"
| "init_cb_name_budget (Suc b) ms (IdentifierName t) s = Some (cb_identifier ms t s)"
| "init_cb_name_budget (Suc b) ms (StringLiteralName _) s = Some s"
| "init_cb_name_budget (Suc b) ms (NumericLiteralName _) s = Some s"
| "init_cb_name_budget (Suc b) ms (ComputedPropertyName e) s = init_cb_budget b ms e s"
  by pat_completeness auto

termination
  apply (relation "measure (\<lambda>x. case x of
      Inl (Inl (b, ms, n, s)) \<Rightarrow> b
    | Inl (Inr (b, ms, d, s)) \<Rightarrow> b
    | Inr (Inl (b, ms, m, s)) \<Rightarrow> b
    | Inr (Inr (b, ms, p, s)) \<Rightarrow> b)")
  apply auto
  done

fun walk_cb_budget :: "nat \<Rightarrow> node \<Rightarrow> child_role \<Rightarrow> node \<Rightarrow> registry \<Rightarrow> registry option" where
  "walk_cb_budget 0 parent role node enums = None"
| "walk_cb_budget (Suc b) parent role (Identifier t) enums = Some (checkUsage parent role t enums)"
| "walk_cb_budget (Suc b) parent role (EnumDeclarationNode d) enums =
     Some (visitEnumDeclaration d enums)"
| "walk_cb_budget (Suc b) parent role (StringLiteral _) enums = Some enums"
| "walk_cb_budget (Suc b) parent role (NumericLiteral _) enums = Some enums"
| "walk_cb_budget (Suc b) parent role (PropertyAccessExpression e n) enums =
     (case walk_cb_budget b (PropertyAccessExpression e n) ExpressionChild e enums of
        None \<Rightarrow> None
      | Some enums' \<Rightarrow>
          walk_cb_budget b (PropertyAccessExpression e n) NameChild (Identifier n) enums')"
| "walk_cb_budget (Suc b) parent role (ElementAccessExpression e arg) enums =
     (case walk_cb_budget b (ElementAccessExpression e arg) ExpressionChild e enums of
        None \<Rightarrow> None
      | Some enums' \<Rightarrow>
          (case arg of
             None \<Rightarrow> Some enums'
           | Some a \<Rightarrow> walk_cb_budget b (ElementAccessExpression e arg) ArgumentChild a enums'))"
| "walk_cb_budget (Suc b) parent role (ExportAssignment e) enums =
     walk_cb_budget b (ExportAssignment e) ExpressionChild e enums"
| "walk_cb_budget (Suc b) parent role (Other cs) enums =
     fold_budget (walk_cb_budget b (Other cs) OtherChild) cs enums"

text \<open>
  \<^verbatim>\<open>enum G { X = (function () { return 1 })() }\<close>: a call of a function expression whose
  body returns a literal. None of the nodes of the initializer is of a kind the evaluator
  tells apart.
\<close>

definition iife :: node where
  "iife = Other [Other [Other [Other [NumericLiteral ''1'']]]]"

definition enum_G :: enum_declaration where
  "enum_G = EnumDeclaration [] ''G'' [EnumMember (IdentifierName ''X'') (Some iife)] 0 6"

section \<open>The identifiers the evaluator visits\<close>

text \<open>
  \<open>bare_identifiers enums e\<close> lists the identifier tokens of \<open>e\<close> that the callback's
  identifier branch is called on when \<open>e\<close> is evaluated in the registry \<open>enums\<close>: every
  identifier token but those below a property access or an indexed access on which the
  callback returns early.
\<close>

function bare_identifiers :: "registry \<Rightarrow> node \<Rightarrow> string list"
and bare_identifiers_decl :: "registry \<Rightarrow> enum_declaration \<Rightarrow> string list"
and bare_identifiers_member :: "registry \<Rightarrow> enum_member \<Rightarrow> string list"
and bare_identifiers_name :: "registry \<Rightarrow> property_name \<Rightarrow> string list"
where
  "bare_identifiers enums (Identifier t) = [t]"
| "bare_identifiers enums (StringLiteral t) = []"
| "bare_identifiers enums (NumericLiteral t) = []"
| "bare_identifiers enums (PropertyAccessExpression e n) =
     (if propertyAccessResolved e n enums then [] else bare_identifiers enums e @ [n])"
| "bare_identifiers enums (ElementAccessExpression e arg) =
     (if elementAccessCheck e arg enums = None then []
      else bare_identifiers enums e @
             (case arg of None \<Rightarrow> [] | Some a \<Rightarrow> bare_identifiers enums a))"
| "bare_identifiers enums (ExportAssignment e) = bare_identifiers enums e"
| "bare_identifiers enums (EnumDeclarationNode d) = bare_identifiers_decl enums d"
| "bare_identifiers enums (Other cs) = concat (map (bare_identifiers enums) cs)"
| "bare_identifiers_decl enums (EnumDeclaration mods n mems st en) =
     n # concat (map (bare_identifiers_member enums) mems)"
| "bare_identifiers_member enums (EnumMember pn ini) =
     bare_identifiers_name enums pn @
       (case ini of None \<Rightarrow> [] | Some e \<Rightarrow> bare_identifiers enums e)"
| "bare_identifiers_name enums (IdentifierName t) = [t]"
| "bare_identifiers_name enums (StringLiteralName t) = []"
| "bare_identifiers_name enums (NumericLiteralName t) = []"
| "bare_identifiers_name enums (ComputedPropertyName e) = bare_identifiers enums e"
  by pat_completeness auto

termination
  apply (relation "measure (\<lambda>x. case x of
      Inl (Inl (r, n)) \<Rightarrow> size n
    | Inl (Inr (r, d)) \<Rightarrow> size d
    | Inr (Inl (r, m)) \<Rightarrow> size m
    | Inr (Inr (r, p)) \<Rightarrow> size p)")
  apply (auto simp: termination_simp)
  done

text \<open>
  \<^verbatim>\<open>enum N { Y = f(A) }\<close>, declared after \<open>A\<close>, names the enum \<open>A\<close> inside its initializer;
  \<^verbatim>\<open>enum S { Y = S }\<close> names itself.
\<close>

definition f_A :: node where
  "f_A = Other [Identifier ''f'', Identifier ''A'']"

definition enum_N :: enum_declaration where
  "enum_N = EnumDeclaration [] ''N'' [EnumMember (IdentifierName ''Y'') (Some f_A)] 20 26"

definition enum_S :: enum_declaration where
  "enum_S =
     EnumDeclaration [] ''S'' [EnumMember (IdentifierName ''Y'') (Some (Identifier ''S''))] 0 6"

section \<open>Registry lemmas\<close>

lemma map_of_modify:
  "map_of (modify n f enums) k = (if k = n then map_option f (map_of enums n) else map_of enums k)"
  by (induction enums) (auto simp: modify_def)

lemma map_fst_modify: "map fst (modify n f enums) = map fst enums"
  by (induction enums) (auto simp: modify_def)

lemma modify_absent: "map_of enums n = None \<Longrightarrow> modify n f enums = enums"
  by (induction enums) (auto simp: modify_def split: if_splits)

lemma clear_all_Nil: "clear_all [] enums = enums"
  by (simp add: clear_all_def)

lemma clear_all_append: "clear_all (ts @ us) enums = clear_all us (clear_all ts enums)"
  by (simp add: clear_all_def)

lemma clear_all_Cons:
  "clear_all (t # ts) enums = clear_all ts (modify t (\<lambda>tr. tr\<lparr>canBeConst := False\<rparr>) enums)"
  by (simp add: clear_all_def)

lemma map_of_clear_all:
  "map_of (clear_all ts enums) k =
     (if k \<in> set ts then map_option (\<lambda>tr. tr\<lparr>canBeConst := False\<rparr>) (map_of enums k)
      else map_of enums k)"
  by (induction ts arbitrary: enums)
     (auto simp: clear_all_Nil clear_all_Cons map_of_modify option.map_comp comp_def)

lemma members_clear_all:
  "map_option members (map_of (clear_all ts enums) k) = map_option members (map_of enums k)"
  by (simp add: map_of_clear_all option.map_comp comp_def)

lemma getEnumInScope_clear_all:
  "getEnumInScope t (clear_all ts enums) =
     (if t \<in> set ts then map_option (\<lambda>tr. tr\<lparr>canBeConst := False\<rparr>) (getEnumInScope t enums)
      else getEnumInScope t enums)"
  by (simp add: getEnumInScope_def map_of_clear_all)

lemma propertyAccessResolved_clear_all:
  "propertyAccessResolved e n (clear_all ts enums) = propertyAccessResolved e n enums"
  by (auto simp: propertyAccessResolved_def getEnumInScope_clear_all split: node.splits option.splits)

lemma elementAccessCheck_Some:
  "elementAccessCheck e arg enums = Some enums' \<Longrightarrow>
     enums' = clear_all (dynamic_base (ElementAccessExpression e arg)) enums"
  apply (cases e)
  apply (auto simp: elementAccessCheck_def isStringLiteralArg_def clear_all_Nil clear_all_Cons getEnumInScope_def modify_absent
      split: option.splits node.splits if_splits)
  done

lemma elementAccessCheck_None:
  "elementAccessCheck e arg enums = None \<Longrightarrow>
     (\<exists>t k. e = Identifier t \<and> arg = Some (StringLiteral k))"
  by (auto simp: elementAccessCheck_def split: option.splits node.splits if_splits)

lemma fold_init_cb_snd:
  assumes "\<And>c s. c \<in> set cs \<Longrightarrow> snd (f c s) = clear_all (g c) (snd s)"
  shows "snd (fold f cs s) = clear_all (concat (map g cs)) (snd s)"
  using assms by (induction cs arbitrary: s) (auto simp: clear_all_Nil clear_all_append)

lemma concat_concat_map:
  "concat (concat (map (\<lambda>x. map f (g x)) cs)) = concat (map (\<lambda>x. concat (map f (g x))) cs)"
  by (induction cs) auto

lemma snd_cb_identifier: "snd (cb_identifier ms t s) = snd s"
  by (simp add: cb_identifier_def)

lemma init_cb_registry:
  "snd (init_cb ms e s) = clear_all (dynamic_bases e) (snd s)"
  "snd (init_cb_decl ms d s) = clear_all (concat (map dynamic_base (subnodes_decl d))) (snd s)"
  "snd (init_cb_member ms m s) = clear_all (concat (map dynamic_base (subnodes_member m))) (snd s)"
  "snd (init_cb_name ms pn s) = clear_all (concat (map dynamic_base (subnodes_name pn))) (snd s)"
proof (induction ms e s and ms d s and ms m s and ms pn s
    rule: init_cb_init_cb_decl_init_cb_member_init_cb_name.induct)
  case (1 ms t s)
  then show ?case by (simp add: dynamic_bases_def snd_cb_identifier clear_all_Nil)
next
  case (2 ms e n s)
  show ?case
  proof (cases "propertyAccessResolved e n (snd s)")
    case True
    then obtain t where "e = Identifier t"
      by (auto simp: propertyAccessResolved_def split: node.splits)
    with True show ?thesis by (simp add: dynamic_bases_def clear_all_Nil)
  next
    case False
    with 2 show ?thesis
      by (simp add: dynamic_bases_def snd_cb_identifier)
  qed
next
  case (3 ms e arg s)
  show ?case
  proof (cases "elementAccessCheck e arg (snd s)")
    case None
    from elementAccessCheck_None[OF None] obtain t k where "e = Identifier t" "arg = Some (StringLiteral k)"
      by blast
    with None show ?thesis
      by (simp add: dynamic_bases_def clear_all_Nil isStringLiteralArg_def)
  next
    case (Some enums')
    note ec = elementAccessCheck_Some[OF Some]
    show ?thesis
    proof (cases arg)
      case None
      with Some 3(1)[OF Some None] ec show ?thesis
        by (simp add: dynamic_bases_def clear_all_append clear_all_Cons clear_all_Nil del: dynamic_base.simps)
    next
      case (Some a)
      with \<open>elementAccessCheck e arg (snd s) = Some enums'\<close> 3(2)[OF _ Some] 3(3)[OF _ Some] ec show ?thesis
        by (simp add: dynamic_bases_def clear_all_append clear_all_Cons clear_all_Nil del: dynamic_base.simps)
    qed
  qed
next
  case (8 ms cs s)
  have "snd (fold (init_cb ms) cs s) =
      clear_all (concat (map (\<lambda>c. concat (map dynamic_base (subnodes c))) cs)) (snd s)"
    by (rule fold_init_cb_snd) (simp add: 8 dynamic_bases_def)
  then show ?case
    by (simp add: dynamic_bases_def clear_all_Nil map_concat comp_def concat_concat_map)
next
  case (9 ms mods n mems st en s)
  have "snd (fold (init_cb_member ms) mems (cb_identifier ms n s)) =
      clear_all (concat (map (\<lambda>m. concat (map dynamic_base (subnodes_member m))) mems)) (snd (cb_identifier ms n s))"
    by (rule fold_init_cb_snd) (simp add: 9)
  then show ?case
    by (simp add: snd_cb_identifier map_concat comp_def concat_concat_map)
next
  case (10 ms pn ini s)
  then show ?case
    by (cases ini) (simp_all add: clear_all_append dynamic_bases_def clear_all_Nil)
qed (simp_all add: dynamic_bases_def clear_all_Nil snd_cb_identifier)

section \<open>The flag of the evaluator\<close>

lemma fst_cb_identifier_False: "fst s = False \<Longrightarrow> fst (cb_identifier ms t s) = False"
  by (simp add: cb_identifier_def)

lemma fold_flag_False:
  assumes "\<And>c s. c \<in> set cs \<Longrightarrow> fst s = False \<Longrightarrow> fst (f c s) = False"
  shows "fst s = False \<Longrightarrow> fst (fold f cs s) = False"
  using assms by (induction cs arbitrary: s) auto

lemma init_cb_flag_False:
  "fst s = False \<Longrightarrow> fst (init_cb ms e s) = False"
  "fst s = False \<Longrightarrow> fst (init_cb_decl ms d s) = False"
  "fst s = False \<Longrightarrow> fst (init_cb_member ms m s) = False"
  "fst s = False \<Longrightarrow> fst (init_cb_name ms pn s) = False"
proof (induction ms e s and ms d s and ms m s and ms pn s
    rule: init_cb_init_cb_decl_init_cb_member_init_cb_name.induct)
  case (2 ms e n s)
  then show ?case by (simp add: fst_cb_identifier_False)
next
  case (3 ms e arg s)
  then show ?case by (auto split: option.splits)
next
  case (8 ms cs s)
  then show ?case by (simp add: fold_flag_False)
next
  case (9 ms mods n mems st en s)
  then show ?case by (simp add: fold_flag_False fst_cb_identifier_False)
next
  case (10 ms pn ini s)
  then show ?case by (auto split: option.splits)
qed (simp_all add: fst_cb_identifier_False)

lemma elementAccessCheck_None_clear_all:
  "(elementAccessCheck e arg (clear_all ts enums) = None) = (elementAccessCheck e arg enums = None)"
  by (auto simp: elementAccessCheck_def getEnumInScope_clear_all
      split: node.splits option.splits if_splits)

lemma unresolved_access_clear_all:
  "unresolved_access (clear_all ts enums) x = unresolved_access enums x"
  by (simp add: unresolved_access_def elementAccessCheck_None_clear_all split: node.splits)

lemma fold_reach:
  assumes "c \<in> set cs"
    and "\<And>s. Q (snd s) \<Longrightarrow> fst (f c s) = False"
    and "\<And>c s. c \<in> set cs \<Longrightarrow> fst s = False \<Longrightarrow> fst (f c s) = False"
    and "\<And>c s. c \<in> set cs \<Longrightarrow> Q (snd s) \<Longrightarrow> Q (snd (f c s))"
  shows "Q (snd s) \<Longrightarrow> fst (fold f cs s) = False"
  using assms
proof (induction cs arbitrary: s)
  case Nil
  then show ?case by simp
next
  case (Cons a cs)
  show ?case
  proof (cases "a = c")
    case True
    have "fst (f a s) = False" using Cons.prems True by simp
    then show ?thesis
      using Cons.prems(4) by (simp add: fold_flag_False)
  next
    case False
    with Cons.prems have "c \<in> set cs" by simp
    moreover have "Q (snd (f a s))" using Cons.prems by simp
    ultimately show ?thesis
      using Cons.IH[of "f a s"] Cons.prems by simp
  qed
qed

lemma init_cb_reaches:
  "x \<in> set (subnodes e) \<Longrightarrow> unresolved_access (snd s) x \<Longrightarrow> fst (init_cb ms e s) = False"
  "x \<in> set (subnodes_decl d) \<Longrightarrow> unresolved_access (snd s) x \<Longrightarrow> fst (init_cb_decl ms d s) = False"
  "x \<in> set (subnodes_member m) \<Longrightarrow> unresolved_access (snd s) x \<Longrightarrow> fst (init_cb_member ms m s) = False"
  "x \<in> set (subnodes_name pn) \<Longrightarrow> unresolved_access (snd s) x \<Longrightarrow> fst (init_cb_name ms pn s) = False"
proof (induction ms e s and ms d s and ms m s and ms pn s
    rule: init_cb_init_cb_decl_init_cb_member_init_cb_name.induct)
  case (1 ms t s)
  then show ?case by (auto simp: unresolved_access_def)
next
  case (2 ms e n s)
  from 2(2,3) have xe: "x \<in> set (subnodes e)" by (auto simp: unresolved_access_def)
  show ?case
  proof (cases "propertyAccessResolved e n (snd s)")
    case True
    then obtain t where "e = Identifier t"
      by (auto simp: propertyAccessResolved_def split: node.splits)
    with xe 2(3) show ?thesis by (auto simp: unresolved_access_def)
  next
    case False
    with 2(1)[OF False xe] 2(3) show ?thesis
      by (simp add: fst_cb_identifier_False)
  qed
next
  case (3 ms e arg s)
  show ?case
  proof (cases "elementAccessCheck e arg (snd s)")
    case None
    from elementAccessCheck_None[OF None] obtain t k where ek: "e = Identifier t" "arg = Some (StringLiteral k)"
      by blast
    with 3(4,5) None show ?thesis by (auto simp: unresolved_access_def)
  next
    case (Some enums')
    have fl: "fst (init_cb ms e (False, enums')) = False"
      by (simp add: init_cb_flag_False)
    show ?thesis
    proof (cases arg)
      case None
      with Some fl show ?thesis by simp
    next
      case (Some a)
      with \<open>elementAccessCheck e arg (snd s) = Some enums'\<close> fl show ?thesis
        by (simp add: init_cb_flag_False)
    qed
  qed
next
  case (4 ms uu s)
  then show ?case by (auto simp: unresolved_access_def)
next
  case (5 ms uv s)
  then show ?case by (auto simp: unresolved_access_def)
next
  case (6 ms e s)
  then show ?case by (auto simp: unresolved_access_def)
next
  case (7 ms d s)
  then show ?case by (auto simp: unresolved_access_def)
next
  case (8 ms cs s)
  from 8(2,3) obtain c where c: "c \<in> set cs" "x \<in> set (subnodes c)"
    by (auto simp: unresolved_access_def)
  have "fst (fold (init_cb ms) cs s) = False"
  proof (rule fold_reach[where Q = "\<lambda>r. unresolved_access r x", OF c(1)])
    show "\<And>s. unresolved_access (snd s) x \<Longrightarrow> fst (init_cb ms c s) = False"
      using 8(1)[OF c(1) c(2)] by simp
    show "\<And>c s. c \<in> set cs \<Longrightarrow> fst s = False \<Longrightarrow> fst (init_cb ms c s) = False"
      by (simp add: init_cb_flag_False)
    show "\<And>c s. c \<in> set cs \<Longrightarrow> unresolved_access (snd s) x \<Longrightarrow> unresolved_access (snd (init_cb ms c s)) x"
      by (simp add: init_cb_registry unresolved_access_clear_all)
    show "unresolved_access (snd s) x" by (rule 8(3))
  qed
  then show ?case by simp
next
  case (9 ms mods n mems st en s)
  from 9(2,3) obtain m where m: "m \<in> set mems" "x \<in> set (subnodes_member m)"
    by (auto simp: unresolved_access_def)
  have "fst (fold (init_cb_member ms) mems (cb_identifier ms n s)) = False"
  proof (rule fold_reach[where Q = "\<lambda>r. unresolved_access r x", OF m(1)])
    show "\<And>s. unresolved_access (snd s) x \<Longrightarrow> fst (init_cb_member ms m s) = False"
      using 9(1)[OF m(1) m(2)] by simp
    show "\<And>c s. c \<in> set mems \<Longrightarrow> fst s = False \<Longrightarrow> fst (init_cb_member ms c s) = False"
      by (simp add: init_cb_flag_False)
    show "\<And>c s. c \<in> set mems \<Longrightarrow> unresolved_access (snd s) x \<Longrightarrow>
        unresolved_access (snd (init_cb_member ms c s)) x"
      by (simp add: init_cb_registry unresolved_access_clear_all)
    show "unresolved_access (snd (cb_identifier ms n s)) x"
      using 9(3) by (simp add: snd_cb_identifier)
  qed
  then show ?case by simp
next
  case (10 ms pn ini s)
  show ?case
  proof (cases ini)
    case None
    with 10 show ?thesis by simp
  next
    case (Some a)
    from 10(4) Some have "x \<in> set (subnodes_name pn) \<or> x \<in> set (subnodes a)" by simp
    then show ?thesis
    proof
      assume "x \<in> set (subnodes_name pn)"
      from 10(2)[OF Some this 10(5)] Some show ?thesis
        by (simp add: init_cb_flag_False)
    next
      assume xa: "x \<in> set (subnodes a)"
      have "unresolved_access (snd (init_cb_name ms pn s)) x"
        using 10(5) by (simp add: init_cb_registry unresolved_access_clear_all)
      from 10(3)[OF Some xa this] Some show ?thesis by simp
    qed
  qed
next
  case (11 ms t s)
  then show ?case by (auto simp: unresolved_access_def)
next
  case (12 ms uw s)
  then show ?case by (auto simp: unresolved_access_def)
next
  case (13 ms ux s)
  then show ?case by (auto simp: unresolved_access_def)
next
  case (14 ms e s)
  then show ?case by simp
qed

section \<open>Indexed access inside an initializer\<close>

lemmas run_defs = enums_after_def visitEnumDeclaration_def visitMember_def addEnum_def modify_def
  isConstInitializer_def hasModifier_def propertyAccessResolved_def getEnumInScope_def
  elementAccessCheck_def cb_identifier_def checkUsage_def usageIgnored_def

lemma registry_A_eq: "registry_A = [(''A'', track_A)]"
  by (simp add: registry_A_def track_A_def enum_A_def run_defs)

text \<open>
  Claim C1, as amended. Let \<open>E[k]\<close> be an indexed access anywhere inside a member
  initializer that is evaluated, with \<open>E\<close> an identifier naming a tracked enum and \<open>k\<close> not
  a string literal naming a member of \<open>E\<close> recorded constant. Then the initializer is
  judged non-constant. When \<open>k\<close> is missing or is not a string literal, the evaluation
  clears \<open>canBeConst\<close> of \<open>E\<close>. When \<open>k\<close> is a string literal (naming an unknown or a
  non-constant member), the access itself clears nothing: the entry of \<open>E\<close> is left as it
  was, unless \<open>E\<close> is also the base of a dynamic indexed access elsewhere in the same
  initializer.
\<close>

theorem indexed_access_in_initializer:
  assumes "ElementAccessExpression (Identifier E) k \<in> set (subnodes ini)"
    and "getEnumInScope E enums = Some track"
    and "\<not> (\<exists>m. k = Some (StringLiteral m) \<and> members track (Some m) = Some True)"
  shows "fst (isConstInitializer ini ms enums) = False \<and>
     (if isStringLiteralArg k \<and> E \<notin> set (dynamic_bases ini)
      then getEnumInScope E (snd (isConstInitializer ini ms enums)) = Some track
      else getEnumInScope E (snd (isConstInitializer ini ms enums)) =
             Some (track\<lparr>canBeConst := False\<rparr>))"
proof -
  let ?x = "ElementAccessExpression (Identifier E) k"
  have "elementAccessCheck (Identifier E) k enums \<noteq> None"
    using assms(2,3) by (auto simp: elementAccessCheck_def split: option.splits node.splits)
  then have "unresolved_access (snd (True, enums)) ?x"
    by (simp add: unresolved_access_def)
  from init_cb_reaches(1)[OF assms(1) this]
  have flag: "fst (isConstInitializer ini ms enums) = False"
    by (simp add: isConstInitializer_def)
  have reg: "snd (isConstInitializer ini ms enums) = clear_all (dynamic_bases ini) enums"
    by (simp add: isConstInitializer_def init_cb_registry)
  have dyn: "\<not> isStringLiteralArg k \<Longrightarrow> E \<in> set (dynamic_bases ini)"
    using assms(1) by (force simp: dynamic_bases_def)
  show ?thesis
    using flag assms(2) dyn
    by (auto simp: reg getEnumInScope_clear_all)
qed

text \<open>
  The theorem at \<^verbatim>\<open>A[0] + 1\<close>, evaluated after \<^verbatim>\<open>enum A { X = 1 }\<close>: not constant, and \<open>A\<close>
  has lost \<open>canBeConst\<close>.
\<close>

theorem indexed_access_in_initializer_witness:
  "ElementAccessExpression (Identifier ''A'') (Some (NumericLiteral ''0'')) \<in>
     set (subnodes
          (Other [ElementAccessExpression (Identifier ''A'') (Some (NumericLiteral ''0'')),
                  NumericLiteral ''1''])) \<and>
   getEnumInScope ''A'' registry_A = Some track_A \<and>
   fst (isConstInitializer
          (Other [ElementAccessExpression (Identifier ''A'') (Some (NumericLiteral ''0'')),
                  NumericLiteral ''1''])
          Map.empty registry_A) = False \<and>
   getEnumInScope ''A''
     (snd (isConstInitializer
          (Other [ElementAccessExpression (Identifier ''A'') (Some (NumericLiteral ''0'')),
                  NumericLiteral ''1''])
          Map.empty registry_A)) = Some (track_A\<lparr>canBeConst := False\<rparr>)"
  using indexed_access_in_initializer[of "''A''" "Some (NumericLiteral ''0'')"
      "Other [ElementAccessExpression (Identifier ''A'') (Some (NumericLiteral ''0'')),
                  NumericLiteral ''1'']" registry_A track_A Map.empty]
  by (simp add: registry_A_eq getEnumInScope_def isStringLiteralArg_def)

text \<open>
  Claim C1 as stated fails at \<^verbatim>\<open>A["Z"]\<close>, evaluated after \<^verbatim>\<open>enum A { X = 1 }\<close>: \<open>A\<close> is
  tracked, \<open>Z\<close> is not a member of \<open>A\<close> recorded constant, the initializer is judged
  non-constant, and the registry is returned as it was, \<open>canBeConst\<close> of \<open>A\<close> still true.
\<close>

theorem string_index_keeps_canBeConst_counterexample:
  "getEnumInScope ''A'' registry_A = Some track_A \<and>
   members track_A (Some ''Z'') \<noteq> Some True \<and>
   canBeConst track_A \<and>
   isConstInitializer (ElementAccessExpression (Identifier ''A'') (Some (StringLiteral ''Z'')))
      Map.empty registry_A = (False, registry_A)"
  by (simp add: registry_A_eq getEnumInScope_def track_A_def isConstInitializer_def
      elementAccessCheck_def cb_identifier_def)

section \<open>A member initialized from another enum's member\<close>

text \<open>
  Claim C8. After \<^verbatim>\<open>enum A { X = 1 }\<close> followed by \<^verbatim>\<open>enum B { Y = A.X }\<close> and nothing
  else, \<open>A\<close> still has \<open>canBeConst\<close> and the member \<open>Y\<close> of \<open>B\<close> is recorded constant. The
  initializer \<^verbatim>\<open>A.X\<close> is judged constant without descent: its base \<open>A\<close> names no member of
  the enclosing enum, so visiting it would have cleared the flag.
\<close>

theorem cross_enum_property_access:
  "enums_after [EnumDeclarationNode enum_A, EnumDeclarationNode enum_B] =
     [(''A'', track_A), (''B'', track_B)] \<and>
   canBeConst track_A \<and> members track_B (Some ''Y'') = Some True \<and>
   isConstInitializer (PropertyAccessExpression (Identifier ''A'') ''X'') Map.empty registry_A =
     (True, registry_A)"
  by (simp add: registry_A_eq track_A_def track_B_def enum_A_def enum_B_def run_defs)


section \<open>The usage validator on one identifier\<close>

lemma getEnumInScope_modify:
  "getEnumInScope k (modify n f enums) =
     (if k = n then map_option f (getEnumInScope n enums) else getEnumInScope k enums)"
  by (simp add: getEnumInScope_def map_of_modify)

text \<open>
  Claim C2, as amended. When the walk meets an identifier whose text names a tracked enum,
  that enum loses \<open>canBeConst\<close> unless the identifier's parent is a property access (the
  identifier being its object or its property name alike), or an export assignment, or an
  indexed access of which the identifier is the base and whose index is a string literal.
  No other entry of the registry changes.
\<close>

theorem usage_clears_unless_ignored:
  assumes "getEnumInScope t enums = Some track"
  shows "getEnumInScope t (walk_cb parent role (Identifier t) enums) =
      Some (if (\<exists>e n. parent = PropertyAccessExpression e n) \<or>
               (\<exists>e. parent = ExportAssignment e) \<or>
               (\<exists>e k. parent = ElementAccessExpression e (Some (StringLiteral k)) \<and>
                      role = ExpressionChild)
            then track else track\<lparr>canBeConst := False\<rparr>) \<and>
     (\<forall>k. k \<noteq> t \<longrightarrow>
        getEnumInScope k (walk_cb parent role (Identifier t) enums) = getEnumInScope k enums)"
proof -
  have ign: "usageIgnored parent role =
      ((\<exists>e n. parent = PropertyAccessExpression e n) \<or>
       (\<exists>e. parent = ExportAssignment e) \<or>
       (\<exists>e k. parent = ElementAccessExpression e (Some (StringLiteral k)) \<and>
              role = ExpressionChild))"
    by (auto simp: usageIgnored_def split: node.splits option.splits)
  show ?thesis
    using assms unfolding ign[symmetric]
    by (simp add: checkUsage_def getEnumInScope_modify)
qed

text \<open>
  The theorem at a plain reference to \<open>A\<close>, which clears, and at \<^verbatim>\<open>A["X"]\<close>, which does not.
\<close>

theorem usage_clears_unless_ignored_witness:
  "getEnumInScope ''A'' registry_A = Some track_A \<and>
   getEnumInScope ''A''
     (walk_cb (Other [Identifier ''A'']) OtherChild (Identifier ''A'') registry_A) =
     Some (track_A\<lparr>canBeConst := False\<rparr>) \<and>
   getEnumInScope ''A''
     (walk_cb (ElementAccessExpression (Identifier ''A'') (Some (StringLiteral ''X'')))
        ExpressionChild (Identifier ''A'') registry_A) = Some track_A"
  using usage_clears_unless_ignored[of "''A''" registry_A track_A "Other [Identifier ''A'']" OtherChild]
    usage_clears_unless_ignored[of "''A''" registry_A track_A
      "ElementAccessExpression (Identifier ''A'') (Some (StringLiteral ''X''))" ExpressionChild]
  by (simp add: registry_A_eq getEnumInScope_def)

text \<open>
  Claim C2 as stated fails at \<^verbatim>\<open>x.A\<close> met after \<^verbatim>\<open>enum A { X = 1 }\<close>: the property name
  \<open>A\<close> names the tracked enum, and the registry is left as it was.
\<close>

theorem property_name_usage_counterexample:
  "getEnumInScope ''A'' registry_A = Some track_A \<and> canBeConst track_A \<and>
   walk_cb (Other []) OtherChild (PropertyAccessExpression (Identifier ''x'') ''A'') registry_A =
     registry_A \<and>
   enums_after [EnumDeclarationNode enum_A,
                Other [PropertyAccessExpression (Identifier ''x'') ''A'']] = registry_A"
  by (simp add: registry_A_eq track_A_def enum_A_def run_defs)


section \<open>The findings\<close>

lemma fold_append_failures:
  "fold (\<lambda>occurence fs. fs @ [f occurence]) occs failures = failures @ map f occs"
  by (induction occs arbitrary: failures) auto

lemma report_track_eq:
  "report_track track failures =
     failures @ (if \<not> isConst track \<and> canBeConst track then map failure_of (occurences track) else [])"
  by (simp add: report_track_def fold_append_failures)

lemma fold_report_track:
  "fold (\<lambda>(k, track). report_track track) enums failures =
     failures @ concat (map (\<lambda>(k, track).
        if \<not> isConst track \<and> canBeConst track then map failure_of (occurences track) else []) enums)"
  by (induction enums arbitrary: failures) (auto simp: report_track_eq)

text \<open>
  Claim C5. The findings of a run are, in the order of the registry, for every entry that
  is not already const and still has \<open>canBeConst\<close>, one finding per occurrence in the order
  of the occurrences: from the start of the declaration to the end of its name token, with
  the fixed message and, as its fix, the replacement of length zero at the start of the
  declaration that inserts \<^verbatim>\<open>const \<close>. Any other entry contributes nothing.
\<close>

theorem findings_of_the_run:
  "walk statements =
     concat (map (\<lambda>(k, track).
        if \<not> isConst track \<and> canBeConst track
        then map (\<lambda>occurence.
               \<lparr>failure_start = getStart occurence,
                failure_end = name_getEnd occurence,
                failure_message = ''enum can be declared const'',
                failure_fix = Replacement (getStart occurence) 0 ''const ''\<rparr>) (occurences track)
        else []) (enums_after statements))"
  by (simp add: walk_def report_def fold_report_track failure_of_def[abs_def] FAIL_MESSAGE_def
      cong: if_cong)

section \<open>A member initialized by a bare identifier\<close>

lemma isConstInitializer_Identifier:
  "isConstInitializer (Identifier a) ms enums = (ms (Some a) = Some True, enums)"
  by (simp add: isConstInitializer_def cb_identifier_def)

lemma visitMember_Identifier:
  assumes "getEnumInScope n enums = Some track"
  shows "visitMember n (EnumMember pn (Some (Identifier a))) enums =
     modify n (\<lambda>tr. tr\<lparr>canBeConst := canBeConst tr \<and>
                                (isConst track \<or> members track (Some a) = Some True),
                       members := (members tr)(getPropertyName pn \<mapsto>
                                (isConst track \<or> members track (Some a) = Some True))\<rparr>) enums"
  using assms
  by (simp add: visitMember_def getEnumInScope_def isConstInitializer_Identifier)




section \<open>The walk as a fold over its dispatches\<close>

lemma fold_concat_map: "fold f (concat (map g xs)) s = fold (\<lambda>x. fold f (g x)) xs s"
  by (induction xs arbitrary: s) auto

lemma walk_cb_events:
  "walk_cb parent role node enums = fold apply_event (walk_events parent role node) enums"
proof (induction parent role node enums rule: walk_cb.induct)
  case (6 parent role e arg enums)
  then show ?case by (cases arg) simp_all
next
  case (8 parent role cs enums)
  have "fold (walk_cb (Other cs) OtherChild) cs enums =
      fold (\<lambda>c. fold apply_event (walk_events (Other cs) OtherChild c)) cs enums"
    using 8 by (intro fold_cong) auto
  then show ?case by (simp add: fold_concat_map)
qed simp_all

lemma enums_after_events: "enums_after statements = fold apply_event (run_events statements) []"
proof -
  have "fold (walk_cb (Other statements) OtherChild) statements [] =
      fold (\<lambda>c. fold apply_event (walk_events (Other statements) OtherChild c)) statements []"
    by (intro fold_cong) (auto simp: walk_cb_events)
  then show ?thesis by (simp add: enums_after_def run_events_def fold_concat_map)
qed

section \<open>The declaration processor, entry by entry\<close>

lemma modify_id: "modify n (\<lambda>tr. tr) enums = enums"
  by (induction enums) (auto simp: modify_def)

lemma modify_modify: "modify n g (modify n f enums) = modify n (g \<circ> f) enums"
  by (induction enums) (auto simp: modify_def)

lemma modify_commute:
  assumes "\<And>tr. f (g tr) = g (f tr)"
  shows "modify t g (modify n f enums) = modify n f (modify t g enums)"
  using assms by (induction enums) (auto simp: modify_def)

lemma clear_all_modify:
  assumes "\<And>tr. f (tr\<lparr>canBeConst := False\<rparr>) = (f tr)\<lparr>canBeConst := False\<rparr>"
  shows "clear_all ts (modify n f enums) = modify n f (clear_all ts enums)"
proof (induction ts arbitrary: enums)
  case Nil
  then show ?case by (simp add: clear_all_Nil)
next
  case (Cons t ts)
  have "modify t (\<lambda>tr. tr\<lparr>canBeConst := False\<rparr>) (modify n f enums) =
      modify n f (modify t (\<lambda>tr. tr\<lparr>canBeConst := False\<rparr>) enums)"
    by (rule modify_commute) (simp add: assms)
  then show ?case
    using Cons by (simp add: clear_all_Cons)
qed

lemma member_update_record: "member_update {key} (record_member key b)"
  by (auto simp: member_update_def record_member_def)

lemma member_update_id: "member_update {} (\<lambda>tr. tr)"
  by (simp add: member_update_def)

lemma member_updateD:
  assumes "member_update K F"
  shows "name (F tr) = name tr" and "isConst (F tr) = isConst tr"
    and "occurences (F tr) = occurences tr"
    and "dom (members (F tr)) = dom (members tr) \<union> K"
    and "k \<notin> K \<Longrightarrow> members (F tr) k = members tr k"
    and "canBeConst (F tr) \<Longrightarrow> canBeConst tr"
    and "F (tr\<lparr>canBeConst := False\<rparr>) = (F tr)\<lparr>canBeConst := False\<rparr>"
  using assms unfolding member_update_def by blast+

lemma member_update_comp:
  assumes "member_update K F" and "member_update L G"
  shows "member_update (K \<union> L) (G \<circ> F)"
  unfolding member_update_def
proof (intro allI conjI impI)
  fix tr
  show "name ((G \<circ> F) tr) = name tr"
    by (simp add: member_updateD(1)[OF assms(1)] member_updateD(1)[OF assms(2)])
  show "isConst ((G \<circ> F) tr) = isConst tr"
    by (simp add: member_updateD(2)[OF assms(1)] member_updateD(2)[OF assms(2)])
  show "occurences ((G \<circ> F) tr) = occurences tr"
    by (simp add: member_updateD(3)[OF assms(1)] member_updateD(3)[OF assms(2)])
  show "dom (members ((G \<circ> F) tr)) = dom (members tr) \<union> (K \<union> L)"
    by (simp add: member_updateD(4)[OF assms(1)] member_updateD(4)[OF assms(2)] Un_assoc)
  show "canBeConst tr" if "canBeConst ((G \<circ> F) tr)"
    using that member_updateD(6)[OF assms(1), of tr] member_updateD(6)[OF assms(2), of "F tr"]
    by simp
  show "(G \<circ> F) (tr\<lparr>canBeConst := False\<rparr>) = ((G \<circ> F) tr)\<lparr>canBeConst := False\<rparr>"
    by (simp add: member_updateD(7)[OF assms(1)] member_updateD(7)[OF assms(2)])
  show "members ((G \<circ> F) tr) k = members tr k" if "k \<notin> K \<union> L" for k
    using that member_updateD(5)[OF assms(1), of k] member_updateD(5)[OF assms(2), of k] by simp
qed

lemma visitMember_shape:
  assumes "getEnumInScope n enums = Some track"
  shows "\<exists>b ts. set ts \<subseteq> set (member_bases m) \<and>
     (initializer m = None \<longrightarrow> b \<and> ts = []) \<and>
     visitMember n m enums =
       modify n (record_member (getPropertyName (member_name m)) b) (clear_all ts enums)"
proof (cases "isConst track \<or> initializer m = None")
  case True
  with assms have "visitMember n m enums =
      modify n (record_member (getPropertyName (member_name m)) True) (clear_all [] enums)"
    by (auto simp: visitMember_def getEnumInScope_def record_member_def[abs_def] clear_all_Nil
        split: option.splits)
  then show ?thesis
    by (intro exI[of _ True] exI[of _ "[]"]) simp
next
  case False
  then obtain ini where ini: "initializer m = Some ini" by auto
  let ?r = "isConstInitializer ini (members track) enums"
  have "snd ?r = clear_all (dynamic_bases ini) enums"
    by (simp add: isConstInitializer_def init_cb_registry)
  with assms False ini have "visitMember n m enums =
      modify n (record_member (getPropertyName (member_name m)) (fst ?r))
        (clear_all (dynamic_bases ini) enums)"
    by (simp add: visitMember_def getEnumInScope_def record_member_def[abs_def] split_beta)
  moreover have "set (dynamic_bases ini) \<subseteq> set (member_bases m)"
    by (simp add: member_bases_def ini)
  ultimately show ?thesis using ini
    by (intro exI[of _ "fst ?r"] exI[of _ "dynamic_bases ini"]) simp
qed

lemma member_loop_shape:
  assumes "getEnumInScope n enums = Some track"
  shows "\<exists>F ts. set ts \<subseteq> set (concat (map member_bases ms)) \<and>
     member_update (set (map (\<lambda>m. getPropertyName (member_name m)) ms)) F \<and>
     ((\<forall>m\<in>set ms. initializer m = None) \<longrightarrow> ts = [] \<and> (\<forall>tr. canBeConst (F tr) = canBeConst tr)) \<and>
     fold (visitMember n) ms enums = modify n F (clear_all ts enums)"
  using assms
proof (induction ms arbitrary: enums track)
  case Nil
  show ?case
    by (intro exI[of _ "\<lambda>tr. tr"] exI[of _ "[]"] conjI)
       (simp_all add: member_update_id clear_all_Nil modify_id)
next
  case (Cons m ms)
  have "\<exists>b ts. set ts \<subseteq> set (member_bases m) \<and>
     (initializer m = None \<longrightarrow> b \<and> ts = []) \<and>
     visitMember n m enums =
       modify n (record_member (getPropertyName (member_name m)) b) (clear_all ts enums)"
    by (rule visitMember_shape[OF Cons.prems])
  then obtain b where "\<exists>ts. set ts \<subseteq> set (member_bases m) \<and>
     (initializer m = None \<longrightarrow> b \<and> ts = []) \<and>
     visitMember n m enums =
       modify n (record_member (getPropertyName (member_name m)) b) (clear_all ts enums)" ..
  then obtain ts where step: "set ts \<subseteq> set (member_bases m) \<and>
     (initializer m = None \<longrightarrow> b \<and> ts = []) \<and>
     visitMember n m enums =
       modify n (record_member (getPropertyName (member_name m)) b) (clear_all ts enums)" ..
  from step have ts: "set ts \<subseteq> set (member_bases m)" by (rule conjunct1)
  from step have nb: "initializer m = None \<longrightarrow> b \<and> ts = []"
    by (rule conjunct2[THEN conjunct1])
  from step have vm: "visitMember n m enums =
       modify n (record_member (getPropertyName (member_name m)) b) (clear_all ts enums)"
    by (rule conjunct2[THEN conjunct2])
  let ?f = "record_member (getPropertyName (member_name m)) b"
  let ?enums1 = "visitMember n m enums"
  have "getEnumInScope n ?enums1 \<noteq> None"
    using Cons.prems by (auto simp: vm getEnumInScope_modify getEnumInScope_clear_all)
  then obtain track1 where "getEnumInScope n ?enums1 = Some track1" by auto
  from Cons.IH[OF this] obtain F where "\<exists>us. set us \<subseteq> set (concat (map member_bases ms)) \<and>
     member_update (set (map (\<lambda>m. getPropertyName (member_name m)) ms)) F \<and>
     ((\<forall>m\<in>set ms. initializer m = None) \<longrightarrow> us = [] \<and> (\<forall>tr. canBeConst (F tr) = canBeConst tr)) \<and>
     fold (visitMember n) ms ?enums1 = modify n F (clear_all us ?enums1)" ..
  then obtain us where rest: "set us \<subseteq> set (concat (map member_bases ms)) \<and>
     member_update (set (map (\<lambda>m. getPropertyName (member_name m)) ms)) F \<and>
     ((\<forall>m\<in>set ms. initializer m = None) \<longrightarrow> us = [] \<and> (\<forall>tr. canBeConst (F tr) = canBeConst tr)) \<and>
     fold (visitMember n) ms ?enums1 = modify n F (clear_all us ?enums1)" ..
  from rest have us: "set us \<subseteq> set (concat (map member_bases ms))" by (rule conjunct1)
  from rest have mu: "member_update (set (map (\<lambda>m. getPropertyName (member_name m)) ms)) F"
    by (rule conjunct2[THEN conjunct1])
  from rest have ni: "(\<forall>m\<in>set ms. initializer m = None) \<longrightarrow>
      us = [] \<and> (\<forall>tr. canBeConst (F tr) = canBeConst tr)"
    by (rule conjunct2[THEN conjunct2, THEN conjunct1])
  from rest have fo: "fold (visitMember n) ms ?enums1 = modify n F (clear_all us ?enums1)"
    by (rule conjunct2[THEN conjunct2, THEN conjunct2])
  have comm: "\<And>tr. ?f (tr\<lparr>canBeConst := False\<rparr>) = (?f tr)\<lparr>canBeConst := False\<rparr>"
    by (simp add: record_member_def)
  have "fold (visitMember n) (m # ms) enums = modify n F (clear_all us ?enums1)"
    using fo by simp
  also have "\<dots> = modify n F (modify n ?f (clear_all us (clear_all ts enums)))"
    by (simp add: vm clear_all_modify[where f = "?f", OF comm])
  also have "\<dots> = modify n (F \<circ> ?f) (clear_all (ts @ us) enums)"
    by (simp add: modify_modify clear_all_append)
  finally have eq: "fold (visitMember n) (m # ms) enums = modify n (F \<circ> ?f) (clear_all (ts @ us) enums)" .
  have mu': "member_update (set (map (\<lambda>m. getPropertyName (member_name m)) (m # ms))) (F \<circ> ?f)"
    using member_update_comp[OF member_update_record mu, of "getPropertyName (member_name m)" b]
    by simp
  have sub: "set (ts @ us) \<subseteq> set (concat (map member_bases (m # ms)))"
    using ts us by auto
  have ni': "(\<forall>m\<in>set (m # ms). initializer m = None) \<longrightarrow>
      ts @ us = [] \<and> (\<forall>tr. canBeConst ((F \<circ> ?f) tr) = canBeConst tr)"
    using nb ni by (auto simp: record_member_def)
  show ?case
    by (intro exI[of _ "F \<circ> ?f"] exI[of _ "ts @ us"] conjI) (rule sub mu' ni' eq)+
qed

lemma getEnumInScope_append:
  "getEnumInScope k (enums @ [(n, tr)]) =
     (case getEnumInScope k enums of Some t \<Rightarrow> Some t | None \<Rightarrow> if k = n then Some tr else None)"
  by (auto simp: getEnumInScope_def map_add_def split: option.splits)

lemma getEnumInScope_addEnum:
  "getEnumInScope k (addEnum d enums) =
     (if k = decl_name d
      then Some ((tracked_before d enums)\<lparr>occurences := occurences (tracked_before d enums) @ [d]\<rparr>)
      else getEnumInScope k enums)"
  by (auto simp: addEnum_def tracked_before_def getEnumInScope_modify getEnumInScope_append
      getEnumInScope_def[symmetric] split: option.splits)

lemma map_fst_addEnum:
  "map fst (addEnum d enums) =
     map fst enums @ (if getEnumInScope (decl_name d) enums = None then [decl_name d] else [])"
  by (auto simp: addEnum_def map_fst_modify getEnumInScope_def split: option.splits)

lemma map_fst_clear_all: "map fst (clear_all ts enums) = map fst enums"
  by (induction ts arbitrary: enums) (simp_all add: clear_all_Nil clear_all_Cons map_fst_modify)

lemma visitEnumDeclaration_shape:
  "\<exists>F ts. set ts \<subseteq> set (initializer_bases d) \<and>
     member_update (set (canonical_names d)) F \<and>
     ((\<forall>m\<in>set (decl_members d). initializer m = None) \<longrightarrow>
        ts = [] \<and> (\<forall>tr. canBeConst (F tr) = canBeConst tr)) \<and>
     visitEnumDeclaration d enums =
       modify (decl_name d)
         (\<lambda>tr. tr\<lparr>canBeConst := canBeConst tr \<and> \<not> hasModifier (modifiers d) ExportKeyword\<rparr>)
         (modify (decl_name d) F (clear_all ts (addEnum d enums)))"
proof -
  have "getEnumInScope (decl_name d) (addEnum d enums) =
      Some ((tracked_before d enums)\<lparr>occurences := occurences (tracked_before d enums) @ [d]\<rparr>)"
    by (simp add: getEnumInScope_addEnum)
  from member_loop_shape[OF this, of "decl_members d"]
  obtain F where "\<exists>ts. set ts \<subseteq> set (concat (map member_bases (decl_members d))) \<and>
     member_update (set (map (\<lambda>m. getPropertyName (member_name m)) (decl_members d))) F \<and>
     ((\<forall>m\<in>set (decl_members d). initializer m = None) \<longrightarrow>
        ts = [] \<and> (\<forall>tr. canBeConst (F tr) = canBeConst tr)) \<and>
     fold (visitMember (decl_name d)) (decl_members d) (addEnum d enums) =
       modify (decl_name d) F (clear_all ts (addEnum d enums))" ..
  then obtain ts where "set ts \<subseteq> set (concat (map member_bases (decl_members d))) \<and>
     member_update (set (map (\<lambda>m. getPropertyName (member_name m)) (decl_members d))) F \<and>
     ((\<forall>m\<in>set (decl_members d). initializer m = None) \<longrightarrow>
        ts = [] \<and> (\<forall>tr. canBeConst (F tr) = canBeConst tr)) \<and>
     fold (visitMember (decl_name d)) (decl_members d) (addEnum d enums) =
       modify (decl_name d) F (clear_all ts (addEnum d enums))" ..
  then show ?thesis
    by (intro exI[of _ F] exI[of _ ts])
       (simp add: visitEnumDeclaration_def initializer_bases_def canonical_names_def)
qed

text \<open>What a declaration does to the entry of its own name.\<close>

lemma visitEnumDeclaration_own:
  "\<exists>track'. getEnumInScope (decl_name d) (visitEnumDeclaration d enums) = Some track' \<and>
     name track' = name (tracked_before d enums) \<and>
     isConst track' = isConst (tracked_before d enums) \<and>
     occurences track' = occurences (tracked_before d enums) @ [d] \<and>
     dom (members track') = dom (members (tracked_before d enums)) \<union> set (canonical_names d) \<and>
     (\<forall>k. k \<notin> set (canonical_names d) \<longrightarrow>
        members track' k = members (tracked_before d enums) k) \<and>
     (canBeConst track' \<longrightarrow>
        canBeConst (tracked_before d enums) \<and> \<not> hasModifier (modifiers d) ExportKeyword) \<and>
     ((\<forall>m\<in>set (decl_members d). initializer m = None) \<longrightarrow>
        canBeConst track' =
          (canBeConst (tracked_before d enums) \<and> \<not> hasModifier (modifiers d) ExportKeyword))"
proof -
  let ?n = "decl_name d"
  let ?t0 = "tracked_before d enums"
  let ?E = "\<lambda>tr. tr\<lparr>canBeConst := canBeConst tr \<and> \<not> hasModifier (modifiers d) ExportKeyword\<rparr>"
  from visitEnumDeclaration_shape[of d enums] obtain F where
    "\<exists>ts. set ts \<subseteq> set (initializer_bases d) \<and>
     member_update (set (canonical_names d)) F \<and>
     ((\<forall>m\<in>set (decl_members d). initializer m = None) \<longrightarrow>
        ts = [] \<and> (\<forall>tr. canBeConst (F tr) = canBeConst tr)) \<and>
     visitEnumDeclaration d enums = modify ?n ?E (modify ?n F (clear_all ts (addEnum d enums)))" ..
  then obtain ts where sh: "set ts \<subseteq> set (initializer_bases d) \<and>
     member_update (set (canonical_names d)) F \<and>
     ((\<forall>m\<in>set (decl_members d). initializer m = None) \<longrightarrow>
        ts = [] \<and> (\<forall>tr. canBeConst (F tr) = canBeConst tr)) \<and>
     visitEnumDeclaration d enums = modify ?n ?E (modify ?n F (clear_all ts (addEnum d enums)))" ..
  from sh have mu: "member_update (set (canonical_names d)) F"
    by (rule conjunct2[THEN conjunct1])
  from sh have ni: "(\<forall>m\<in>set (decl_members d). initializer m = None) \<longrightarrow>
        ts = [] \<and> (\<forall>tr. canBeConst (F tr) = canBeConst tr)"
    by (rule conjunct2[THEN conjunct2, THEN conjunct1])
  from sh have eq: "visitEnumDeclaration d enums =
      modify ?n ?E (modify ?n F (clear_all ts (addEnum d enums)))"
    by (rule conjunct2[THEN conjunct2, THEN conjunct2])
  define t1 where "t1 = ?t0\<lparr>occurences := occurences ?t0 @ [d]\<rparr>"
  define t2 where "t2 = (if ?n \<in> set ts then t1\<lparr>canBeConst := False\<rparr> else t1)"
  have g: "getEnumInScope ?n (visitEnumDeclaration d enums) = Some (?E (F t2))"
    by (simp add: eq getEnumInScope_modify getEnumInScope_clear_all getEnumInScope_addEnum
        t1_def t2_def)
  have t2: "name t2 = name ?t0" "isConst t2 = isConst ?t0" "occurences t2 = occurences ?t0 @ [d]"
    "members t2 = members ?t0" "canBeConst t2 \<Longrightarrow> canBeConst ?t0"
    by (simp_all add: t1_def t2_def split: if_splits)
  have t2ni: "(\<forall>m\<in>set (decl_members d). initializer m = None) \<Longrightarrow> canBeConst t2 = canBeConst ?t0"
    using ni by (simp add: t1_def t2_def)
  show ?thesis
  proof (intro exI[of _ "?E (F t2)"] conjI allI impI)
    show "getEnumInScope ?n (visitEnumDeclaration d enums) = Some (?E (F t2))" by (rule g)
    show "name (?E (F t2)) = name ?t0" by (simp add: member_updateD(1)[OF mu] t2)
    show "isConst (?E (F t2)) = isConst ?t0" by (simp add: member_updateD(2)[OF mu] t2)
    show "occurences (?E (F t2)) = occurences ?t0 @ [d]" by (simp add: member_updateD(3)[OF mu] t2)
    show "dom (members (?E (F t2))) = dom (members ?t0) \<union> set (canonical_names d)"
      by (simp add: member_updateD(4)[OF mu] t2)
    show "members (?E (F t2)) k = members ?t0 k" if "k \<notin> set (canonical_names d)" for k
      using member_updateD(5)[OF mu that, of t2] by (simp add: t2)
    show "canBeConst ?t0" if "canBeConst (?E (F t2))"
      using that member_updateD(6)[OF mu, of t2] t2(5) by simp
    show "\<not> hasModifier (modifiers d) ExportKeyword" if "canBeConst (?E (F t2))"
      using that by simp
    show "canBeConst (?E (F t2)) = (canBeConst ?t0 \<and> \<not> hasModifier (modifiers d) ExportKeyword)"
      if "\<forall>m\<in>set (decl_members d). initializer m = None"
      using ni that t2ni[OF that] by simp
  qed
qed

text \<open>What a declaration does to the entries of the other names, and to the keys.\<close>

lemma visitEnumDeclaration_other:
  "\<exists>ts. set ts \<subseteq> set (initializer_bases d) \<and>
     (\<forall>k. k \<noteq> decl_name d \<longrightarrow>
        getEnumInScope k (visitEnumDeclaration d enums) = getEnumInScope k (clear_all ts enums))"
proof -
  let ?n = "decl_name d"
  let ?E = "\<lambda>tr. tr\<lparr>canBeConst := canBeConst tr \<and> \<not> hasModifier (modifiers d) ExportKeyword\<rparr>"
  from visitEnumDeclaration_shape[of d enums] obtain F where
    "\<exists>ts. set ts \<subseteq> set (initializer_bases d) \<and>
     member_update (set (canonical_names d)) F \<and>
     ((\<forall>m\<in>set (decl_members d). initializer m = None) \<longrightarrow>
        ts = [] \<and> (\<forall>tr. canBeConst (F tr) = canBeConst tr)) \<and>
     visitEnumDeclaration d enums = modify ?n ?E (modify ?n F (clear_all ts (addEnum d enums)))" ..
  then obtain ts where sh: "set ts \<subseteq> set (initializer_bases d) \<and>
     member_update (set (canonical_names d)) F \<and>
     ((\<forall>m\<in>set (decl_members d). initializer m = None) \<longrightarrow>
        ts = [] \<and> (\<forall>tr. canBeConst (F tr) = canBeConst tr)) \<and>
     visitEnumDeclaration d enums = modify ?n ?E (modify ?n F (clear_all ts (addEnum d enums)))" ..
  from sh have sub: "set ts \<subseteq> set (initializer_bases d)" by (rule conjunct1)
  from sh have eq: "visitEnumDeclaration d enums =
      modify ?n ?E (modify ?n F (clear_all ts (addEnum d enums)))"
    by (rule conjunct2[THEN conjunct2, THEN conjunct2])
  have "getEnumInScope k (visitEnumDeclaration d enums) = getEnumInScope k (clear_all ts enums)"
    if "k \<noteq> ?n" for k
    using that by (simp add: eq getEnumInScope_modify getEnumInScope_clear_all getEnumInScope_addEnum)
  with sub show ?thesis by (intro exI[of _ ts]) simp
qed

lemma map_fst_visitEnumDeclaration:
  "map fst (visitEnumDeclaration d enums) =
     map fst enums @ (if getEnumInScope (decl_name d) enums = None then [decl_name d] else [])"
proof -
  from visitEnumDeclaration_shape[of d enums] obtain F ts where
    "visitEnumDeclaration d enums =
       modify (decl_name d)
         (\<lambda>tr. tr\<lparr>canBeConst := canBeConst tr \<and> \<not> hasModifier (modifiers d) ExportKeyword\<rparr>)
         (modify (decl_name d) F (clear_all ts (addEnum d enums)))"
    by (elim exE conjE)
  then show ?thesis
    by (simp add: map_fst_modify map_fst_clear_all map_fst_addEnum)
qed

section \<open>Eligibility only falls\<close>

lemma never_raised_refl: "never_raised enums enums"
  by (simp add: never_raised_def)

lemma never_raised_trans:
  assumes "never_raised a b" and "never_raised b c"
  shows "never_raised a c"
  unfolding never_raised_def
proof (intro allI impI)
  fix n track
  assume "getEnumInScope n a = Some track"
  with assms(1) obtain t1 where t1: "getEnumInScope n b = Some t1" "canBeConst t1 \<longrightarrow> canBeConst track"
    unfolding never_raised_def by blast
  with assms(2) obtain t2 where "getEnumInScope n c = Some t2" "canBeConst t2 \<longrightarrow> canBeConst t1"
    unfolding never_raised_def by blast
  with t1 show "\<exists>track'. getEnumInScope n c = Some track' \<and> (canBeConst track' \<longrightarrow> canBeConst track)"
    by auto
qed

lemma never_raised_clear_all: "never_raised enums (clear_all ts enums)"
  by (simp add: never_raised_def getEnumInScope_clear_all)

lemma never_raised_checkUsage: "never_raised enums (checkUsage parent role t enums)"
  by (auto simp: never_raised_def checkUsage_def getEnumInScope_modify split: option.splits)

lemma never_raised_isConstInitializer:
  "never_raised enums (snd (isConstInitializer ini ms enums))"
  by (simp add: isConstInitializer_def init_cb_registry never_raised_clear_all)

lemma never_raised_visitEnumDeclaration: "never_raised enums (visitEnumDeclaration d enums)"
  unfolding never_raised_def
proof (intro allI impI)
  fix n track
  assume tr: "getEnumInScope n enums = Some track"
  show "\<exists>track'. getEnumInScope n (visitEnumDeclaration d enums) = Some track' \<and>
      (canBeConst track' \<longrightarrow> canBeConst track)"
  proof (cases "n = decl_name d")
    case True
    with tr have "tracked_before d enums = track" by (simp add: tracked_before_def)
    with visitEnumDeclaration_own[of d enums] True show ?thesis by auto
  next
    case False
    from visitEnumDeclaration_other[of d enums] obtain ts where
      "\<forall>k. k \<noteq> decl_name d \<longrightarrow>
        getEnumInScope k (visitEnumDeclaration d enums) = getEnumInScope k (clear_all ts enums)"
      by (elim exE conjE)
    with False have "getEnumInScope n (visitEnumDeclaration d enums) =
        getEnumInScope n (clear_all ts enums)" by simp
    with tr show ?thesis by (simp add: getEnumInScope_clear_all)
  qed
qed

lemma never_raised_apply_event: "never_raised enums (apply_event ev enums)"
  by (cases ev) (simp_all add: never_raised_checkUsage never_raised_visitEnumDeclaration)

lemma never_raised_fold: "never_raised enums (fold apply_event evs enums)"
proof (induction evs arbitrary: enums)
  case Nil
  then show ?case by (simp add: never_raised_refl)
next
  case (Cons ev evs)
  show ?case
    using never_raised_trans[OF never_raised_apply_event[of enums ev] Cons[of "apply_event ev enums"]]
    by simp
qed

text \<open>
  Claim C4. A tracking structure is created with \<open>canBeConst\<close> true. Validating a usage,
  evaluating an initializer, processing a declaration, and so the walk over any tree, keep
  every tracked enum tracked and leave its \<open>canBeConst\<close> as it was or false: once false it is
  never true again.
\<close>

theorem canBeConst_only_falls:
  "never_raised enums (checkUsage parent role t enums) \<and>
   never_raised enums (snd (isConstInitializer ini ms enums)) \<and>
   never_raised enums (visitEnumDeclaration d enums) \<and>
   never_raised enums (walk_cb parent role node enums) \<and>
   (getEnumInScope (decl_name d) enums = None \<longrightarrow>
      map_option canBeConst (getEnumInScope (decl_name d) (addEnum d enums)) = Some True)"
  by (simp add: never_raised_checkUsage never_raised_isConstInitializer
      never_raised_visitEnumDeclaration walk_cb_events never_raised_fold
      getEnumInScope_addEnum tracked_before_def)

text \<open>
  The theorem after a plain reference to \<open>A\<close> has cleared it: walking the second
  declaration \<^verbatim>\<open>enum A { Y }\<close>, which alone would be eligible, leaves \<open>canBeConst\<close> false. And
  \<open>A\<close>, not tracked in the empty registry, is created with \<open>canBeConst\<close> true.
\<close>

theorem canBeConst_only_falls_witness:
  "getEnumInScope ''A'' (checkUsage (Other []) OtherChild ''A'' registry_A) =
     Some (track_A\<lparr>canBeConst := False\<rparr>) \<and>
   (\<exists>track'. getEnumInScope ''A''
        (walk_cb (Other []) OtherChild (EnumDeclarationNode enum_A_again)
           (checkUsage (Other []) OtherChild ''A'' registry_A)) = Some track' \<and>
      \<not> canBeConst track') \<and>
   getEnumInScope ''A'' [] = None \<and>
   map_option canBeConst (getEnumInScope ''A'' (addEnum enum_A [])) = Some True"
proof -
  let ?enums = "checkUsage (Other []) OtherChild ''A'' registry_A"
  have g: "getEnumInScope ''A'' ?enums = Some (track_A\<lparr>canBeConst := False\<rparr>)"
    by (simp add: registry_A_eq run_defs)
  from canBeConst_only_falls[where enums = ?enums and parent = "Other []" and role = OtherChild
      and node = "EnumDeclarationNode enum_A_again"]
  have "never_raised ?enums (walk_cb (Other []) OtherChild (EnumDeclarationNode enum_A_again) ?enums)"
    by simp
  with g have a: "\<exists>track'. getEnumInScope ''A''
        (walk_cb (Other []) OtherChild (EnumDeclarationNode enum_A_again) ?enums) = Some track' \<and>
      \<not> canBeConst track'"
    unfolding never_raised_def by fastforce
  from canBeConst_only_falls[where enums = "[]" and d = enum_A]
  have b: "getEnumInScope ''A'' [] = None \<and>
      map_option canBeConst (getEnumInScope ''A'' (addEnum enum_A [])) = Some True"
    by (simp add: enum_A_def getEnumInScope_def)
  from g a b show ?thesis by simp
qed

section \<open>The registry at the end of a run\<close>

lemma map_fst_checkUsage: "map fst (checkUsage parent role t enums) = map fst enums"
  by (simp add: checkUsage_def map_fst_modify split: option.splits)

lemma map_fst_apply_event:
  "map fst (apply_event ev enums) =
     map fst enums @
       (case ev of
          Declaration d \<Rightarrow> if getEnumInScope (decl_name d) enums = None then [decl_name d] else []
        | Usage _ _ _ \<Rightarrow> [])"
  by (cases ev) (simp_all add: map_fst_checkUsage map_fst_visitEnumDeclaration)

lemma distinct_apply_event:
  "distinct (map fst enums) \<Longrightarrow> distinct (map fst (apply_event ev enums))"
  by (auto simp: map_fst_apply_event getEnumInScope_def map_of_eq_None_iff split: event.splits)

lemma distinct_fold_apply_event:
  "distinct (map fst enums) \<Longrightarrow> distinct (map fst (fold apply_event evs enums))"
  by (induction evs arbitrary: enums) (simp_all add: distinct_apply_event)

lemma filter_key_distinct:
  "distinct (map fst enums) \<Longrightarrow> map_of enums n = Some track \<Longrightarrow>
     filter (\<lambda>(k, tr). k = n) enums = [(n, track)]"
proof (induction enums)
  case Nil
  then show ?case by simp
next
  case (Cons p enums)
  obtain k tr where p: "p = (k, tr)" by (cases p)
  show ?case
  proof (cases "k = n")
    case True
    with Cons.prems p have "n \<notin> fst ` set enums" "tr = track" by auto
    then have "filter (\<lambda>(k, tr). k = n) enums = []"
      by (force simp: filter_empty_conv)
    with True p \<open>tr = track\<close> show ?thesis by simp
  next
    case False
    with Cons p show ?thesis by simp
  qed
qed

text \<open>An entry whose canBeConst may have been cleared is still the entry of the same declarations.\<close>

lemma entry_ok_lowered:
  assumes "entry_ok n ds enums"
    and "getEnumInScope n enums' = getEnumInScope n enums \<or>
         getEnumInScope n enums' = map_option (\<lambda>tr. tr\<lparr>canBeConst := False\<rparr>) (getEnumInScope n enums)"
  shows "entry_ok n ds enums'"
  using assms by (auto simp: entry_ok_def)

lemma getEnumInScope_checkUsage:
  "getEnumInScope n (checkUsage parent role t enums) =
     (if n = t \<and> \<not> usageIgnored parent role
      then map_option (\<lambda>tr. tr\<lparr>canBeConst := False\<rparr>) (getEnumInScope n enums)
      else getEnumInScope n enums)"
  by (auto simp: checkUsage_def getEnumInScope_modify split: option.splits)

lemma entry_ok_apply_event:
  assumes "entry_ok n ds enums"
  shows "entry_ok n (ds @ filter (\<lambda>d. decl_name d = n) (declaration_of ev)) (apply_event ev enums)"
proof (cases ev)
  case (Usage parent role t)
  have "entry_ok n ds (checkUsage parent role t enums)"
    by (rule entry_ok_lowered[OF assms]) (simp add: getEnumInScope_checkUsage)
  with Usage show ?thesis by simp
next
  case (Declaration d)
  show ?thesis
  proof (cases "decl_name d = n")
    case False
    from visitEnumDeclaration_other[of d enums] obtain ts where
      "\<forall>k. k \<noteq> decl_name d \<longrightarrow>
        getEnumInScope k (visitEnumDeclaration d enums) = getEnumInScope k (clear_all ts enums)"
      by (elim exE conjE)
    with False have "getEnumInScope n (visitEnumDeclaration d enums) =
        getEnumInScope n (clear_all ts enums)" by simp
    then have "entry_ok n ds (visitEnumDeclaration d enums)"
      by (intro entry_ok_lowered[OF assms]) (simp add: getEnumInScope_clear_all)
    with False Declaration show ?thesis by simp
  next
    case True
    let ?t0 = "tracked_before d enums"
    from visitEnumDeclaration_own[of d enums] obtain track' where
      g: "getEnumInScope (decl_name d) (visitEnumDeclaration d enums) = Some track'" and
      nm: "name track' = name ?t0" and
      ic: "isConst track' = isConst ?t0" and
      oc: "occurences track' = occurences ?t0 @ [d]" and
      dm: "dom (members track') = dom (members ?t0) \<union> set (canonical_names d)" and
      cb: "canBeConst track' \<longrightarrow> canBeConst ?t0 \<and> \<not> hasModifier (modifiers d) ExportKeyword"
      by (elim exE conjE)
    have "entry_ok n (ds @ [d]) (visitEnumDeclaration d enums)"
    proof (cases "ds = []")
      case True
      with assms \<open>decl_name d = n\<close> have t0: "name ?t0 = n"
        "isConst ?t0 = hasModifier (modifiers d) ConstKeyword"
        "occurences ?t0 = []" "dom (members ?t0) = {}"
        by (simp_all add: entry_ok_def tracked_before_def)
      show ?thesis
        unfolding entry_ok_def
        using g nm ic oc dm cb t0 True \<open>decl_name d = n\<close> by simp
    next
      case False
      with assms obtain track where tr: "getEnumInScope n enums = Some track"
        "name track = n" "isConst track = hasModifier (modifiers (hd ds)) ConstKeyword"
        "occurences track = ds" "dom (members track) = (\<Union>d\<in>set ds. set (canonical_names d))"
        "canBeConst track \<longrightarrow> (\<forall>d\<in>set ds. \<not> hasModifier (modifiers d) ExportKeyword)"
        unfolding entry_ok_def by auto
      with \<open>decl_name d = n\<close> have t0: "?t0 = track" by (simp add: tracked_before_def)
      show ?thesis
        unfolding entry_ok_def
        using g nm ic oc dm cb tr False \<open>decl_name d = n\<close> unfolding t0
        by (auto simp: Un_commute)
    qed
    with True Declaration show ?thesis by simp
  qed
qed

lemma entry_ok_fold:
  "entry_ok n ds enums \<Longrightarrow>
     entry_ok n (ds @ declared n evs) (fold apply_event evs enums)"
proof (induction evs arbitrary: ds enums)
  case Nil
  then show ?case by (simp add: declared_def)
next
  case (Cons ev evs)
  from Cons.IH[OF entry_ok_apply_event[OF Cons.prems, of ev]]
  show ?case by (simp add: declared_def)
qed

lemma entry_ok_run: "entry_ok n (declared n (run_events statements)) (enums_after statements)"
  using entry_ok_fold[of n "[]" "[]" "run_events statements"]
  by (simp add: entry_ok_def getEnumInScope_def enums_after_events)

lemma distinct_run: "distinct (map fst (enums_after statements))"
  by (simp add: enums_after_events distinct_fold_apply_event)

lemma declared_run:
  "declared n (run_events statements) = filter (\<lambda>d. decl_name d = n) (declarations statements)"
  by (simp add: declared_def declarations_def)

text \<open>
  Claim C6. Let \<open>ds\<close> be the declarations of one name that a run hands to the declaration
  processor, in order, two of them or any number but none. The registry ends with exactly
  one entry of that name; its occurrences are \<open>ds\<close>; the keys of its member map are the
  canonical names of the members of all of \<open>ds\<close>; and it has lost \<open>canBeConst\<close> if any of
  \<open>ds\<close> carries the export modifier. Moreover, processing a declaration of a name already
  tracked leaves every member of another name as it was recorded, so with no member
  redefined the map is the union of what each declaration recorded.
\<close>

theorem merged_declarations:
  assumes "filter (\<lambda>d. decl_name d = n) (declarations statements) = ds" and "ds \<noteq> []"
  shows "(\<exists>track. filter (\<lambda>(k, tr). k = n) (enums_after statements) = [(n, track)] \<and>
            name track = n \<and>
            occurences track = ds \<and>
            dom (members track) = (\<Union>d\<in>set ds. set (canonical_names d)) \<and>
            ((\<exists>d\<in>set ds. hasModifier (modifiers d) ExportKeyword) \<longrightarrow> \<not> canBeConst track)) \<and>
         (\<forall>d enums track. getEnumInScope (decl_name d) enums = Some track \<longrightarrow>
            (\<exists>track'. getEnumInScope (decl_name d) (visitEnumDeclaration d enums) = Some track' \<and>
               (\<forall>k. k \<notin> set (canonical_names d) \<longrightarrow> members track' k = members track k)))"
proof (rule conjI)
  from entry_ok_run[of n statements] assms
  obtain track where tr: "getEnumInScope n (enums_after statements) = Some track"
    "name track = n" "occurences track = ds"
    "dom (members track) = (\<Union>d\<in>set ds. set (canonical_names d))"
    "canBeConst track \<longrightarrow> (\<forall>d\<in>set ds. \<not> hasModifier (modifiers d) ExportKeyword)"
    unfolding entry_ok_def declared_run by auto
  from tr(1) have "filter (\<lambda>(k, tr). k = n) (enums_after statements) = [(n, track)]"
    by (intro filter_key_distinct distinct_run) (simp add: getEnumInScope_def)
  with tr show "\<exists>track. filter (\<lambda>(k, tr). k = n) (enums_after statements) = [(n, track)] \<and>
            name track = n \<and>
            occurences track = ds \<and>
            dom (members track) = (\<Union>d\<in>set ds. set (canonical_names d)) \<and>
            ((\<exists>d\<in>set ds. hasModifier (modifiers d) ExportKeyword) \<longrightarrow> \<not> canBeConst track)"
    by (intro exI[of _ track]) auto
next
  show "\<forall>d enums track. getEnumInScope (decl_name d) enums = Some track \<longrightarrow>
            (\<exists>track'. getEnumInScope (decl_name d) (visitEnumDeclaration d enums) = Some track' \<and>
               (\<forall>k. k \<notin> set (canonical_names d) \<longrightarrow> members track' k = members track k))"
  proof (intro allI impI)
    fix d enums track
    assume "getEnumInScope (decl_name d) enums = Some track"
    then have t0: "tracked_before d enums = track" by (simp add: tracked_before_def)
    from visitEnumDeclaration_own[of d enums] obtain track' where
      "getEnumInScope (decl_name d) (visitEnumDeclaration d enums) = Some track'"
      "\<forall>k. k \<notin> set (canonical_names d) \<longrightarrow> members track' k = members (tracked_before d enums) k"
      by (elim exE conjE)
    then show "\<exists>track'. getEnumInScope (decl_name d) (visitEnumDeclaration d enums) = Some track' \<and>
               (\<forall>k. k \<notin> set (canonical_names d) \<longrightarrow> members track' k = members track k)"
      unfolding t0 by (intro exI[of _ track']) simp
  qed
qed

text \<open>
  The theorem at \<^verbatim>\<open>export enum E { X = 1 }\<close> merged with \<^verbatim>\<open>export enum E { Y }\<close>: one entry,
  both occurrences, the members \<open>X\<close> and \<open>Y\<close>, no \<open>canBeConst\<close>, and no finding.
\<close>

theorem merged_declarations_witness:
  "filter (\<lambda>d. decl_name d = ''E'')
     (declarations [EnumDeclarationNode enum_E1, EnumDeclarationNode enum_E2]) = [enum_E1, enum_E2] \<and>
   (\<exists>track.
      filter (\<lambda>(k, tr). k = ''E'')
        (enums_after [EnumDeclarationNode enum_E1, EnumDeclarationNode enum_E2]) = [(''E'', track)] \<and>
      occurences track = [enum_E1, enum_E2] \<and>
      dom (members track) = {Some ''X'', Some ''Y''} \<and>
      \<not> canBeConst track) \<and>
   walk [EnumDeclarationNode enum_E1, EnumDeclarationNode enum_E2] = []"
proof -
  let ?p = "[EnumDeclarationNode enum_E1, EnumDeclarationNode enum_E2]"
  have ds: "filter (\<lambda>d. decl_name d = ''E'') (declarations ?p) = [enum_E1, enum_E2]"
    by (simp add: declarations_def run_events_def enum_E1_def enum_E2_def)
  have ex: "hasModifier (modifiers enum_E1) ExportKeyword"
    by (simp add: enum_E1_def hasModifier_def)
  have cn: "(\<Union>d\<in>set [enum_E1, enum_E2]. set (canonical_names d)) = {Some ''X'', Some ''Y''}"
    by (auto simp: canonical_names_def enum_E1_def enum_E2_def)
  from merged_declarations[OF ds] ex cn
  have "\<exists>track.
      filter (\<lambda>(k, tr). k = ''E'') (enums_after ?p) = [(''E'', track)] \<and>
      occurences track = [enum_E1, enum_E2] \<and>
      dom (members track) = {Some ''X'', Some ''Y''} \<and>
      \<not> canBeConst track"
    by auto
  moreover have "walk ?p = []"
    by (simp add: walk_def report_def report_track_def enum_E1_def enum_E2_def run_defs)
  ultimately show ?thesis using ds by simp
qed

section \<open>An enum nothing disqualifies\<close>

lemma keeps_apply_event:
  assumes "\<not> disqualifies n ev"
    and "\<forall>d\<in>set (declaration_of ev). decl_name d = n \<longrightarrow> plain d"
    and "\<forall>track. getEnumInScope n enums = Some track \<longrightarrow> canBeConst track"
  shows "\<forall>track. getEnumInScope n (apply_event ev enums) = Some track \<longrightarrow> canBeConst track"
proof (cases ev)
  case (Usage parent role t)
  with assms(1) have "getEnumInScope n (apply_event ev enums) = getEnumInScope n enums"
    by (auto simp: getEnumInScope_checkUsage)
  with assms(3) show ?thesis by simp
next
  case (Declaration d)
  show ?thesis
  proof (cases "decl_name d = n")
    case False
    from visitEnumDeclaration_other[of d enums] obtain ts where
      ts: "set ts \<subseteq> set (initializer_bases d)" and
      "\<forall>k. k \<noteq> decl_name d \<longrightarrow>
        getEnumInScope k (visitEnumDeclaration d enums) = getEnumInScope k (clear_all ts enums)"
      by (elim exE conjE)
    with False have "getEnumInScope n (visitEnumDeclaration d enums) =
        getEnumInScope n (clear_all ts enums)" by simp
    moreover from assms(1) Declaration ts have "n \<notin> set ts" by auto
    ultimately have "getEnumInScope n (apply_event ev enums) = getEnumInScope n enums"
      using Declaration by (simp add: getEnumInScope_clear_all)
    with assms(3) show ?thesis by simp
  next
    case True
    with assms(2) Declaration have pl: "plain d" by simp
    let ?t0 = "tracked_before d enums"
    have t0: "canBeConst ?t0"
      using assms(3) True by (simp add: tracked_before_def split: option.splits)
    from visitEnumDeclaration_own[of d enums] obtain track' where
      g: "getEnumInScope (decl_name d) (visitEnumDeclaration d enums) = Some track'" and
      cb: "(\<forall>m\<in>set (decl_members d). initializer m = None) \<longrightarrow>
        canBeConst track' = (canBeConst ?t0 \<and> \<not> hasModifier (modifiers d) ExportKeyword)"
      by (elim exE conjE)
    from cb pl t0 have "canBeConst track'" by (simp add: plain_def)
    with g True Declaration show ?thesis by simp
  qed
qed

lemma keeps_fold:
  assumes "\<forall>ev\<in>set evs. \<not> disqualifies n ev"
    and "\<forall>d\<in>set (declared n evs). plain d"
    and "\<forall>track. getEnumInScope n enums = Some track \<longrightarrow> canBeConst track"
  shows "\<forall>track. getEnumInScope n (fold apply_event evs enums) = Some track \<longrightarrow> canBeConst track"
  using assms
proof (induction evs arbitrary: enums)
  case Nil
  then show ?case by simp
next
  case (Cons ev evs)
  have a1: "\<not> disqualifies n ev" using Cons.prems(1) by simp
  have a2: "\<forall>d\<in>set (declaration_of ev). decl_name d = n \<longrightarrow> plain d"
    using Cons.prems(2) by (simp add: declared_def)
  have a: "\<forall>track. getEnumInScope n (apply_event ev enums) = Some track \<longrightarrow> canBeConst track"
    by (rule keeps_apply_event[OF a1 a2 Cons.prems(3)])
  have b: "\<forall>ev\<in>set evs. \<not> disqualifies n ev" using Cons.prems(1) by simp
  have c: "\<forall>d\<in>set (declared n evs). plain d"
    using Cons.prems(2) by (simp add: declared_def)
  show ?case using Cons.IH[OF b c a] by simp
qed

lemma failure_in_report:
  assumes "getEnumInScope n enums = Some track" and "\<not> isConst track" and "canBeConst track"
    and "d \<in> set (occurences track)"
  shows "failure_of d \<in> set (report enums)"
proof -
  from assms(1) have "(n, track) \<in> set enums"
    by (simp add: getEnumInScope_def map_of_SomeD)
  with assms(2-4) show ?thesis
    by (auto simp: report_def fold_report_track intro!: bexI[of _ "(n, track)"])
qed

text \<open>
  Claim C3, as amended. Let \<open>ds\<close> be the declarations of the name \<open>n\<close> that the walk reaches,
  at least one, each of them plain: no member initializer, no export modifier, no const
  modifier. If moreover no dispatch of the run disqualifies \<open>n\<close>, that is, the walk meets
  no identifier \<open>n\<close> that the usage validator does not ignore, and no member initializer of
  a declaration the walk reaches holds a dynamic indexed access on \<open>n\<close>, then the run ends with
  \<open>canBeConst\<close> of \<open>n\<close> true and a finding, with its fix, for every occurrence.
\<close>

theorem plain_unused_enum_is_reported:
  assumes "filter (\<lambda>d. decl_name d = n) (declarations statements) = ds" and "ds \<noteq> []"
    and "\<forall>d\<in>set ds. plain d"
    and "\<forall>ev\<in>set (run_events statements). \<not> disqualifies n ev"
  shows "\<exists>track. getEnumInScope n (enums_after statements) = Some track \<and>
           canBeConst track \<and> \<not> isConst track \<and> occurences track = ds \<and>
           (\<forall>d\<in>set ds. failure_of d \<in> set (walk statements))"
proof -
  from entry_ok_run[of n statements] assms(1,2)
  obtain track where tr: "getEnumInScope n (enums_after statements) = Some track"
    "isConst track = hasModifier (modifiers (hd ds)) ConstKeyword" "occurences track = ds"
    unfolding entry_ok_def declared_run by auto
  from assms(2,3) have "plain (hd ds)" by simp
  with tr(2) have nc: "\<not> isConst track" by (simp add: plain_def)
  have "\<forall>track. getEnumInScope n (fold apply_event (run_events statements) []) = Some track \<longrightarrow>
      canBeConst track"
    using assms(1,3,4) by (intro keeps_fold) (auto simp: declared_run getEnumInScope_def)
  with tr(1) have cb: "canBeConst track" by (simp add: enums_after_events)
  have "\<forall>d\<in>set ds. failure_of d \<in> set (walk statements)"
    using failure_in_report[OF tr(1) nc cb] tr(3) by (simp add: walk_def)
  with tr(1,3) nc cb show ?thesis by (intro exI[of _ track]) simp
qed

text \<open>
  The theorem at \<^verbatim>\<open>enum Color { Red, Green, Blue }\<close> followed by \<^verbatim>\<open>Color.Red\<close>.
\<close>

theorem plain_unused_enum_is_reported_witness:
  "filter (\<lambda>d. decl_name d = ''Color'')
     (declarations [EnumDeclarationNode enum_Color, Color_Red]) = [enum_Color] \<and>
   plain enum_Color \<and>
   list_all (\<lambda>ev. \<not> disqualifies ''Color'' ev)
     (run_events [EnumDeclarationNode enum_Color, Color_Red]) \<and>
   (\<exists>track. getEnumInScope ''Color'' (enums_after [EnumDeclarationNode enum_Color, Color_Red]) =
        Some track \<and>
      canBeConst track \<and> \<not> isConst track \<and> occurences track = [enum_Color] \<and>
      failure_of enum_Color \<in> set (walk [EnumDeclarationNode enum_Color, Color_Red]))"
proof -
  let ?p = "[EnumDeclarationNode enum_Color, Color_Red]"
  have ds: "filter (\<lambda>d. decl_name d = ''Color'') (declarations ?p) = [enum_Color]"
    by (simp add: declarations_def run_events_def enum_Color_def Color_Red_def)
  have pl: "plain enum_Color"
    by (simp add: plain_def enum_Color_def hasModifier_def)
  have nd: "list_all (\<lambda>ev. \<not> disqualifies ''Color'' ev) (run_events ?p)"
    by (simp add: run_events_def enum_Color_def Color_Red_def usageIgnored_def
        initializer_bases_def member_bases_def)
  have ne: "[enum_Color] \<noteq> []" by simp
  have pl': "\<forall>d\<in>set [enum_Color]. plain d" using pl by simp
  have nd': "\<forall>ev\<in>set (run_events ?p). \<not> disqualifies ''Color'' ev"
    using nd by (simp only: list_all_iff)
  from plain_unused_enum_is_reported[OF ds ne pl' nd']
  have "\<exists>track. getEnumInScope ''Color'' (enums_after ?p) = Some track \<and>
      canBeConst track \<and> \<not> isConst track \<and> occurences track = [enum_Color] \<and>
      failure_of enum_Color \<in> set (walk ?p)"
    by simp
  with ds pl nd show ?thesis by simp
qed

text \<open>
  Claim C3 as stated fails at \<^verbatim>\<open>enum Color { Red, Green, Blue }\<close> followed by \<^verbatim>\<open>f(Color)\<close>:
  the only declaration has no initializer and neither modifier, and the run ends with
  \<open>canBeConst\<close> false and no finding.
\<close>

theorem plain_enum_used_as_argument_counterexample:
  "declarations [EnumDeclarationNode enum_Color, f_Color] = [enum_Color] \<and>
   list_all (\<lambda>m. initializer m = None) (decl_members enum_Color) \<and>
   \<not> hasModifier (modifiers enum_Color) ExportKeyword \<and>
   \<not> hasModifier (modifiers enum_Color) ConstKeyword \<and>
   map_option canBeConst
     (getEnumInScope ''Color'' (enums_after [EnumDeclarationNode enum_Color, f_Color])) =
     Some False \<and>
   walk [EnumDeclarationNode enum_Color, f_Color] = []"
  by (simp add: declarations_def run_events_def enum_Color_def f_Color_def walk_def report_def
      report_track_def run_defs)

section \<open>Totality and recursion depth\<close>

lemma fold_budget_Some:
  assumes "\<And>x s. x \<in> set xs \<Longrightarrow> f x s = Some (g x s)"
  shows "fold_budget f xs s = Some (fold g xs s)"
  using assms by (induction xs arbitrary: s) simp_all

lemma fold_max_ge: "c \<le> fold max xs (c::nat)"
proof (induction xs arbitrary: c)
  case Nil
  then show ?case by simp
next
  case (Cons x xs)
  have "c \<le> max x c" by simp
  also have "\<dots> \<le> fold max xs (max x c)" by (rule Cons)
  finally show ?case by simp
qed

lemma fold_max_mem: "x \<in> set xs \<Longrightarrow> x \<le> fold max xs (c::nat)"
proof (induction xs arbitrary: c)
  case Nil
  then show ?case by simp
next
  case (Cons y ys)
  show ?case
  proof (cases "x = y")
    case True
    have "x \<le> max y c" using True by simp
    also have "\<dots> \<le> fold max ys (max y c)" by (rule fold_max_ge)
    finally show ?thesis by simp
  next
    case False
    with Cons.prems have "x \<in> set ys" by simp
    from Cons.IH[OF this] show ?thesis by simp
  qed
qed

lemma child_height_le:
  assumes "c \<in> set cs" and "Suc (fold max (map h cs) k) \<le> Suc b"
  shows "h c \<le> b"
proof -
  from assms(1) have "h c \<in> set (map h cs)" by simp
  from fold_max_mem[OF this, of k] assms(2) show ?thesis by simp
qed

lemma init_cb_budget_Identifier:
  "1 \<le> b \<Longrightarrow> init_cb_budget b ms (Identifier t) s = Some (cb_identifier ms t s)"
  by (cases b) simp_all

lemma init_cb_budget_enough:
  "\<forall>b. height e \<le> b \<longrightarrow> init_cb_budget b ms e s = Some (init_cb ms e s)"
  "\<forall>b. height_decl d \<le> b \<longrightarrow> init_cb_decl_budget b ms d s = Some (init_cb_decl ms d s)"
  "\<forall>b. height_member m \<le> b \<longrightarrow> init_cb_member_budget b ms m s = Some (init_cb_member ms m s)"
  "\<forall>b. height_name pn \<le> b \<longrightarrow> init_cb_name_budget b ms pn s = Some (init_cb_name ms pn s)"
proof (induction ms e s and ms d s and ms m s and ms pn s
    rule: init_cb_init_cb_decl_init_cb_member_init_cb_name.induct)
  case (1 ms t s)
  show ?case
  proof (intro allI impI)
    fix b assume "height (Identifier t) \<le> b"
    then obtain b' where "b = Suc b'" by (cases b) auto
    then show "init_cb_budget b ms (Identifier t) s = Some (init_cb ms (Identifier t) s)" by simp
  qed
next
  case (2 ms e n s)
  show ?case
  proof (intro allI impI)
    fix b assume h: "height (PropertyAccessExpression e n) \<le> b"
    then obtain b' where b: "b = Suc b'" by (cases b) auto
    with h have he: "height e \<le> b'" and one: "1 \<le> b'" by simp_all
    show "init_cb_budget b ms (PropertyAccessExpression e n) s =
        Some (init_cb ms (PropertyAccessExpression e n) s)"
    proof (cases "propertyAccessResolved e n (snd s)")
      case True
      with b show ?thesis by simp
    next
      case False
      from 2[OF False] he have "init_cb_budget b' ms e (False, snd s) = Some (init_cb ms e (False, snd s))"
        by simp
      with False b one show ?thesis by (simp add: init_cb_budget_Identifier)
    qed
  qed
next
  case (3 ms e arg s)
  show ?case
  proof (intro allI impI)
    fix b assume h: "height (ElementAccessExpression e arg) \<le> b"
    then obtain b' where b: "b = Suc b'" by (cases b) auto
    with h have he: "height e \<le> b'" by simp
    show "init_cb_budget b ms (ElementAccessExpression e arg) s =
        Some (init_cb ms (ElementAccessExpression e arg) s)"
    proof (cases "elementAccessCheck e arg (snd s)")
      case None
      with b show ?thesis by simp
    next
      case (Some enums')
      show ?thesis
      proof (cases arg)
        case None
        from 3(1)[OF Some None] he
        have "init_cb_budget b' ms e (False, enums') = Some (init_cb ms e (False, enums'))" by simp
        with Some None b show ?thesis by simp
      next
        case (Some a)
        note ec = \<open>elementAccessCheck e arg (snd s) = Some enums'\<close>
        from h b Some have ha: "height a \<le> b'" by simp
        from 3(2)[OF ec Some] he
        have 1: "init_cb_budget b' ms e (False, enums') = Some (init_cb ms e (False, enums'))" by simp
        from 3(3)[OF ec Some] ha
        have 2: "init_cb_budget b' ms a (init_cb ms e (False, enums')) =
            Some (init_cb ms a (init_cb ms e (False, enums')))" by simp
        from ec Some b 1 2 show ?thesis by simp
      qed
    qed
  qed
next
  case (4 ms uu s)
  show ?case
  proof (intro allI impI)
    fix b assume "height (StringLiteral uu) \<le> b"
    then obtain b' where "b = Suc b'" by (cases b) auto
    then show "init_cb_budget b ms (StringLiteral uu) s = Some (init_cb ms (StringLiteral uu) s)"
      by simp
  qed
next
  case (5 ms uv s)
  show ?case
  proof (intro allI impI)
    fix b assume "height (NumericLiteral uv) \<le> b"
    then obtain b' where "b = Suc b'" by (cases b) auto
    then show "init_cb_budget b ms (NumericLiteral uv) s = Some (init_cb ms (NumericLiteral uv) s)"
      by simp
  qed
next
  case (6 ms e s)
  show ?case
  proof (intro allI impI)
    fix b assume h: "height (ExportAssignment e) \<le> b"
    then obtain b' where b: "b = Suc b'" by (cases b) auto
    with h 6 show "init_cb_budget b ms (ExportAssignment e) s = Some (init_cb ms (ExportAssignment e) s)"
      by simp
  qed
next
  case (7 ms d s)
  show ?case
  proof (intro allI impI)
    fix b assume h: "height (EnumDeclarationNode d) \<le> b"
    then obtain b' where b: "b = Suc b'" by (cases b) auto
    with h 7 show "init_cb_budget b ms (EnumDeclarationNode d) s =
        Some (init_cb ms (EnumDeclarationNode d) s)"
      by simp
  qed
next
  case (8 ms cs s)
  show ?case
  proof (intro allI impI)
    fix b assume h: "height (Other cs) \<le> b"
    then obtain b' where b: "b = Suc b'" by (cases b) auto
    have "fold_budget (init_cb_budget b' ms) cs s = Some (fold (init_cb ms) cs s)"
    proof (rule fold_budget_Some)
      fix c s' assume c: "c \<in> set cs"
      from h b have "Suc (fold max (map height cs) 0) \<le> Suc b'" by simp
      from child_height_le[OF c this] have "height c \<le> b'" .
      with 8[OF c, of s'] show "init_cb_budget b' ms c s' = Some (init_cb ms c s')" by simp
    qed
    with b show "init_cb_budget b ms (Other cs) s = Some (init_cb ms (Other cs) s)" by simp
  qed
next
  case (9 ms mods n mems st en s)
  show ?case
  proof (intro allI impI)
    fix b assume h: "height_decl (EnumDeclaration mods n mems st en) \<le> b"
    then obtain b' where b: "b = Suc b'" by (cases b) auto
    from h b have hm: "Suc (fold max (map height_member mems) 1) \<le> Suc b'" by simp
    with fold_max_ge[of 1 "map height_member mems"] have one: "1 \<le> b'" by simp
    have "fold_budget (init_cb_member_budget b' ms) mems (cb_identifier ms n s) =
        Some (fold (init_cb_member ms) mems (cb_identifier ms n s))"
    proof (rule fold_budget_Some)
      fix m s' assume m: "m \<in> set mems"
      from child_height_le[OF m hm] have "height_member m \<le> b'" .
      with 9[OF m, of s'] show "init_cb_member_budget b' ms m s' = Some (init_cb_member ms m s')"
        by simp
    qed
    with b one show "init_cb_decl_budget b ms (EnumDeclaration mods n mems st en) s =
        Some (init_cb_decl ms (EnumDeclaration mods n mems st en) s)"
      by (simp add: init_cb_budget_Identifier)
  qed
next
  case (10 ms pn ini s)
  show ?case
  proof (intro allI impI)
    fix b assume h: "height_member (EnumMember pn ini) \<le> b"
    then obtain b' where b: "b = Suc b'" by (cases b) auto
    with h have hn: "height_name pn \<le> b'" by simp
    show "init_cb_member_budget b ms (EnumMember pn ini) s =
        Some (init_cb_member ms (EnumMember pn ini) s)"
    proof (cases ini)
      case None
      with 10(1)[OF None] hn b show ?thesis by simp
    next
      case (Some e)
      from h b Some have he: "height e \<le> b'" by simp
      from 10(2)[OF Some] hn have 1: "init_cb_name_budget b' ms pn s = Some (init_cb_name ms pn s)"
        by simp
      from 10(3)[OF Some] he have 2: "init_cb_budget b' ms e (init_cb_name ms pn s) =
          Some (init_cb ms e (init_cb_name ms pn s))" by simp
      from Some b 1 2 show ?thesis by simp
    qed
  qed
next
  case (11 ms t s)
  show ?case
  proof (intro allI impI)
    fix b assume "height_name (IdentifierName t) \<le> b"
    then obtain b' where "b = Suc b'" by (cases b) auto
    then show "init_cb_name_budget b ms (IdentifierName t) s =
        Some (init_cb_name ms (IdentifierName t) s)" by simp
  qed
next
  case (12 ms uw s)
  show ?case
  proof (intro allI impI)
    fix b assume "height_name (StringLiteralName uw) \<le> b"
    then obtain b' where "b = Suc b'" by (cases b) auto
    then show "init_cb_name_budget b ms (StringLiteralName uw) s =
        Some (init_cb_name ms (StringLiteralName uw) s)" by simp
  qed
next
  case (13 ms ux s)
  show ?case
  proof (intro allI impI)
    fix b assume "height_name (NumericLiteralName ux) \<le> b"
    then obtain b' where "b = Suc b'" by (cases b) auto
    then show "init_cb_name_budget b ms (NumericLiteralName ux) s =
        Some (init_cb_name ms (NumericLiteralName ux) s)" by simp
  qed
next
  case (14 ms e s)
  show ?case
  proof (intro allI impI)
    fix b assume h: "height_name (ComputedPropertyName e) \<le> b"
    then obtain b' where b: "b = Suc b'" by (cases b) auto
    with h 14 show "init_cb_name_budget b ms (ComputedPropertyName e) s =
        Some (init_cb_name ms (ComputedPropertyName e) s)" by simp
  qed
qed

lemma walk_cb_budget_enough:
  "\<forall>b. walk_height node \<le> b \<longrightarrow>
     walk_cb_budget b parent role node enums = Some (walk_cb parent role node enums)"
proof (induction parent role node enums rule: walk_cb.induct)
  case (1 parent role t enums)
  show ?case
  proof (intro allI impI)
    fix b assume "walk_height (Identifier t) \<le> b"
    then obtain b' where "b = Suc b'" by (cases b) auto
    then show "walk_cb_budget b parent role (Identifier t) enums =
        Some (walk_cb parent role (Identifier t) enums)" by simp
  qed
next
  case (2 parent role d enums)
  show ?case
  proof (intro allI impI)
    fix b assume "walk_height (EnumDeclarationNode d) \<le> b"
    then obtain b' where "b = Suc b'" by (cases b) auto
    then show "walk_cb_budget b parent role (EnumDeclarationNode d) enums =
        Some (walk_cb parent role (EnumDeclarationNode d) enums)" by simp
  qed
next
  case (3 parent role uu enums)
  show ?case
  proof (intro allI impI)
    fix b assume "walk_height (StringLiteral uu) \<le> b"
    then obtain b' where "b = Suc b'" by (cases b) auto
    then show "walk_cb_budget b parent role (StringLiteral uu) enums =
        Some (walk_cb parent role (StringLiteral uu) enums)" by simp
  qed
next
  case (4 parent role uv enums)
  show ?case
  proof (intro allI impI)
    fix b assume "walk_height (NumericLiteral uv) \<le> b"
    then obtain b' where "b = Suc b'" by (cases b) auto
    then show "walk_cb_budget b parent role (NumericLiteral uv) enums =
        Some (walk_cb parent role (NumericLiteral uv) enums)" by simp
  qed
next
  case (5 parent role e n enums)
  show ?case
  proof (intro allI impI)
    fix b assume h: "walk_height (PropertyAccessExpression e n) \<le> b"
    then obtain b' where b: "b = Suc b'" by (cases b) auto
    with h have he: "walk_height e \<le> b'" and "1 \<le> b'" by simp_all
    then obtain b'' where b'': "b' = Suc b''" by (cases b') auto
    from 5 he have "walk_cb_budget b' (PropertyAccessExpression e n) ExpressionChild e enums =
        Some (walk_cb (PropertyAccessExpression e n) ExpressionChild e enums)" by simp
    then show "walk_cb_budget b parent role (PropertyAccessExpression e n) enums =
        Some (walk_cb parent role (PropertyAccessExpression e n) enums)"
      using b by (simp add: b''[symmetric]) (simp add: b'')
  qed
next
  case (6 parent role e arg enums)
  show ?case
  proof (intro allI impI)
    fix b assume h: "walk_height (ElementAccessExpression e arg) \<le> b"
    then obtain b' where b: "b = Suc b'" by (cases b) auto
    with h have he: "walk_height e \<le> b'" by simp
    show "walk_cb_budget b parent role (ElementAccessExpression e arg) enums =
        Some (walk_cb parent role (ElementAccessExpression e arg) enums)"
    proof (cases arg)
      case None
      from 6(1)[OF None] he
      have "walk_cb_budget b' (ElementAccessExpression e arg) ExpressionChild e enums =
          Some (walk_cb (ElementAccessExpression e arg) ExpressionChild e enums)" by simp
      with None b show ?thesis by simp
    next
      case (Some a)
      from h b Some have ha: "walk_height a \<le> b'" by simp
      from 6(2)[OF Some] he
      have 1: "walk_cb_budget b' (ElementAccessExpression e arg) ExpressionChild e enums =
          Some (walk_cb (ElementAccessExpression e arg) ExpressionChild e enums)" by simp
      from 6(3)[OF Some] ha
      have 2: "walk_cb_budget b' (ElementAccessExpression e arg) ArgumentChild a
            (walk_cb (ElementAccessExpression e arg) ExpressionChild e enums) =
          Some (walk_cb (ElementAccessExpression e arg) ArgumentChild a
            (walk_cb (ElementAccessExpression e arg) ExpressionChild e enums))" by simp
      from Some b 1 2 show ?thesis by simp
    qed
  qed
next
  case (7 parent role e enums)
  show ?case
  proof (intro allI impI)
    fix b assume h: "walk_height (ExportAssignment e) \<le> b"
    then obtain b' where b: "b = Suc b'" by (cases b) auto
    with h 7 show "walk_cb_budget b parent role (ExportAssignment e) enums =
        Some (walk_cb parent role (ExportAssignment e) enums)" by simp
  qed
next
  case (8 parent role cs enums)
  show ?case
  proof (intro allI impI)
    fix b assume h: "walk_height (Other cs) \<le> b"
    then obtain b' where b: "b = Suc b'" by (cases b) auto
    have "fold_budget (walk_cb_budget b' (Other cs) OtherChild) cs enums =
        Some (fold (walk_cb (Other cs) OtherChild) cs enums)"
    proof (rule fold_budget_Some)
      fix c s' assume c: "c \<in> set cs"
      from h b have "Suc (fold max (map walk_height cs) 0) \<le> Suc b'" by simp
      from child_height_le[OF c this] have "walk_height c \<le> b'" .
      with 8[OF c, of s'] show "walk_cb_budget b' (Other cs) OtherChild c s' =
          Some (walk_cb (Other cs) OtherChild c s')" by simp
    qed
    with b show "walk_cb_budget b parent role (Other cs) enums =
        Some (walk_cb parent role (Other cs) enums)" by simp
  qed
qed

lemma walk_cb_Other: "walk_cb parent role (Other statements) [] = enums_after statements"
  by (simp add: enums_after_def)

text \<open>
  Claim C9, as amended. Both traversals are total functions of the tree, and no step of
  them can fail. Their recursion is bounded by the nesting depth: with a budget of at
  least the height of the initializer the evaluator returns, and returns what
  \<open>isConstInitializer\<close> does; with a budget of at least the height of the statements, enum
  declarations counted as leaves, the walk returns the registry of the run. A lookup miss
  is judged non-constant: an identifier that names no member recorded constant, a property
  access and an indexed access that do not resolve. A node of any other kind is judged by
  its children alone, starting from constant, so one without children is judged constant.
\<close>

theorem analysis_is_total:
  "(height ini \<le> b \<longrightarrow>
      init_cb_budget b ms ini (True, enums) = Some (isConstInitializer ini ms enums)) \<and>
   (walk_height (Other statements) \<le> b \<longrightarrow>
      walk_cb_budget b parent role (Other statements) [] = Some (enums_after statements)) \<and>
   (ms (Some t) \<noteq> Some True \<longrightarrow> isConstInitializer (Identifier t) ms enums = (False, enums)) \<and>
   (\<not> propertyAccessResolved e n enums \<longrightarrow>
      fst (isConstInitializer (PropertyAccessExpression e n) ms enums) = False) \<and>
   (elementAccessCheck e arg enums \<noteq> None \<longrightarrow>
      fst (isConstInitializer (ElementAccessExpression e arg) ms enums) = False) \<and>
   isConstInitializer (Other cs) ms enums = fold (init_cb ms) cs (True, enums) \<and>
   isConstInitializer (Other []) ms enums = (True, enums)"
proof (intro conjI impI)
  assume "height ini \<le> b"
  with init_cb_budget_enough(1)[of ini ms "(True, enums)"]
  show "init_cb_budget b ms ini (True, enums) = Some (isConstInitializer ini ms enums)"
    by (simp add: isConstInitializer_def)
next
  assume "walk_height (Other statements) \<le> b"
  with walk_cb_budget_enough[of "Other statements" parent role "[]"]
  show "walk_cb_budget b parent role (Other statements) [] = Some (enums_after statements)"
    by (simp only: walk_cb_Other)
next
  assume "ms (Some t) \<noteq> Some True"
  then show "isConstInitializer (Identifier t) ms enums = (False, enums)"
    by (simp add: isConstInitializer_def cb_identifier_def)
next
  assume "\<not> propertyAccessResolved e n enums"
  then show "fst (isConstInitializer (PropertyAccessExpression e n) ms enums) = False"
    by (simp add: isConstInitializer_def fst_cb_identifier_False init_cb_flag_False)
next
  assume "elementAccessCheck e arg enums \<noteq> None"
  then show "fst (isConstInitializer (ElementAccessExpression e arg) ms enums) = False"
    by (auto simp: isConstInitializer_def init_cb_flag_False split: option.splits)
next
  show "isConstInitializer (Other cs) ms enums = fold (init_cb ms) cs (True, enums)"
    by (simp add: isConstInitializer_def)
next
  show "isConstInitializer (Other []) ms enums = (True, enums)"
    by (simp add: isConstInitializer_def)
qed

text \<open>
  The theorem at the call of a function expression, of height five, at the run over
  \<^verbatim>\<open>enum A { X = 1 }\<close> and \<^verbatim>\<open>f(Color)\<close>, of height four, and at three lookup misses.
\<close>

theorem analysis_is_total_witness:
  "height iife \<le> 5 \<and>
   init_cb_budget 5 Map.empty iife (True, []) = Some (True, []) \<and>
   walk_height (Other [EnumDeclarationNode enum_A, f_Color]) \<le> 4 \<and>
   walk_cb_budget 4 (Other []) OtherChild (Other [EnumDeclarationNode enum_A, f_Color]) [] =
     Some registry_A \<and>
   isConstInitializer (Identifier ''Q'') Map.empty [] = (False, []) \<and>
   \<not> propertyAccessResolved (Identifier ''A'') ''Q'' registry_A \<and>
   fst (isConstInitializer (PropertyAccessExpression (Identifier ''A'') ''Q'') Map.empty registry_A) =
     False \<and>
   elementAccessCheck (Identifier ''A'') None registry_A \<noteq> None \<and>
   fst (isConstInitializer (ElementAccessExpression (Identifier ''A'') None) Map.empty registry_A) =
     False"
proof -
  have h1: "height iife \<le> 5" by (simp add: iife_def)
  have h2: "walk_height (Other [EnumDeclarationNode enum_A, f_Color]) \<le> 4"
    by (simp add: f_Color_def)
  have r: "enums_after [EnumDeclarationNode enum_A, f_Color] = registry_A"
    by (simp add: registry_A_eq track_A_def enum_A_def f_Color_def run_defs)
  have i: "isConstInitializer iife Map.empty [] = (True, [])"
    by (simp add: iife_def isConstInitializer_def)
  have p: "\<not> propertyAccessResolved (Identifier ''A'') ''Q'' registry_A"
    by (simp add: registry_A_eq track_A_def propertyAccessResolved_def getEnumInScope_def)
  have a: "elementAccessCheck (Identifier ''A'') None registry_A \<noteq> None"
    by (simp add: registry_A_eq elementAccessCheck_def getEnumInScope_def)
  have q: "Map.empty (Some ''Q'') \<noteq> Some True" by simp
  from analysis_is_total[where ini = iife and b = 5 and ms = Map.empty and enums = "[]"] h1 i
  have 1: "init_cb_budget 5 Map.empty iife (True, []) = Some (True, [])" by simp
  from analysis_is_total[where statements = "[EnumDeclarationNode enum_A, f_Color]" and b = 4
      and parent = "Other []" and role = OtherChild] h2 r
  have 2: "walk_cb_budget 4 (Other []) OtherChild (Other [EnumDeclarationNode enum_A, f_Color]) [] =
     Some registry_A" by simp
  from analysis_is_total[where t = "''Q''" and ms = Map.empty and enums = "[]"] q
  have 3: "isConstInitializer (Identifier ''Q'') Map.empty [] = (False, [])" by simp
  from analysis_is_total[where e = "Identifier ''A''" and n = "''Q''" and ms = Map.empty
      and enums = registry_A] p
  have 4: "fst (isConstInitializer (PropertyAccessExpression (Identifier ''A'') ''Q'') Map.empty
      registry_A) = False" by simp
  from analysis_is_total[where e = "Identifier ''A''" and arg = None and ms = Map.empty
      and enums = registry_A] a
  have 5: "fst (isConstInitializer (ElementAccessExpression (Identifier ''A'') None) Map.empty
      registry_A) = False" by simp
  from h1 h2 1 2 3 p 4 a 5 show ?thesis by simp
qed

text \<open>
  Claim C9 as stated fails at \<^verbatim>\<open>enum G { X = (function () { return 1 })() }\<close>: the
  initializer is of no shape the evaluator tells apart, and it is judged constant; \<open>X\<close> is
  recorded constant, \<open>G\<close> keeps \<open>canBeConst\<close> and is reported.
\<close>

theorem unrecognized_shape_judged_constant_counterexample:
  "isConstInitializer iife Map.empty [] = (True, []) \<and>
   enums_after [EnumDeclarationNode enum_G] =
     [(''G'', \<lparr>name = ''G'', isConst = False, occurences = [enum_G],
              members = [Some ''X'' \<mapsto> True], canBeConst = True\<rparr>)] \<and>
   walk [EnumDeclarationNode enum_G] = [failure_of enum_G]"
  by (simp add: iife_def enum_G_def walk_def report_def report_track_def run_defs)

section \<open>An identifier inside an initializer\<close>

lemma bare_identifiers_clear_all:
  "bare_identifiers (clear_all ts enums) e = bare_identifiers enums e"
  "bare_identifiers_decl (clear_all ts enums) d = bare_identifiers_decl enums d"
  "bare_identifiers_member (clear_all ts enums) m = bare_identifiers_member enums m"
  "bare_identifiers_name (clear_all ts enums) pn = bare_identifiers_name enums pn"
proof (induction enums e and enums d and enums m and enums pn
    rule: bare_identifiers_bare_identifiers_decl_bare_identifiers_member_bare_identifiers_name.induct)
  case (4 enums e n)
  then show ?case by (simp add: propertyAccessResolved_clear_all)
next
  case (5 enums e arg)
  then show ?case
    by (cases arg) (simp_all add: elementAccessCheck_None_clear_all)
next
  case (8 enums cs)
  then show ?case by (simp cong: map_cong)
next
  case (9 enums mods n mems st en)
  then show ?case by (simp cong: map_cong)
next
  case (10 enums pn ini)
  then show ?case by (cases ini) simp_all
qed simp_all

lemma init_cb_bare_identifier:
  "a \<in> set (bare_identifiers (snd s) e) \<Longrightarrow> ms (Some a) \<noteq> Some True \<Longrightarrow>
     fst (init_cb ms e s) = False"
  "a \<in> set (bare_identifiers_decl (snd s) d) \<Longrightarrow> ms (Some a) \<noteq> Some True \<Longrightarrow>
     fst (init_cb_decl ms d s) = False"
  "a \<in> set (bare_identifiers_member (snd s) m) \<Longrightarrow> ms (Some a) \<noteq> Some True \<Longrightarrow>
     fst (init_cb_member ms m s) = False"
  "a \<in> set (bare_identifiers_name (snd s) pn) \<Longrightarrow> ms (Some a) \<noteq> Some True \<Longrightarrow>
     fst (init_cb_name ms pn s) = False"
proof (induction ms e s and ms d s and ms m s and ms pn s
    rule: init_cb_init_cb_decl_init_cb_member_init_cb_name.induct)
  case (1 ms t s)
  then show ?case by (simp add: cb_identifier_def)
next
  case (2 ms e n s)
  show ?case
  proof (cases "propertyAccessResolved e n (snd s)")
    case True
    with 2(2) show ?thesis by simp
  next
    case False
    then show ?thesis by (simp add: fst_cb_identifier_False init_cb_flag_False)
  qed
next
  case (3 ms e arg s)
  show ?case
  proof (cases "elementAccessCheck e arg (snd s)")
    case None
    with 3(4) show ?thesis by simp
  next
    case (Some enums')
    then show ?thesis by (cases arg) (simp_all add: init_cb_flag_False)
  qed
next
  case (8 ms cs s)
  from 8(2) obtain c where c: "c \<in> set cs" "a \<in> set (bare_identifiers (snd s) c)" by auto
  have "fst (fold (init_cb ms) cs s) = False"
  proof (rule fold_reach[where Q = "\<lambda>r. a \<in> set (bare_identifiers r c)", OF c(1)])
    show "\<And>s. a \<in> set (bare_identifiers (snd s) c) \<Longrightarrow> fst (init_cb ms c s) = False"
      using 8(1)[OF c(1)] 8(3) by simp
    show "\<And>c s. c \<in> set cs \<Longrightarrow> fst s = False \<Longrightarrow> fst (init_cb ms c s) = False"
      by (simp add: init_cb_flag_False)
    show "\<And>c' s. c' \<in> set cs \<Longrightarrow> a \<in> set (bare_identifiers (snd s) c) \<Longrightarrow>
        a \<in> set (bare_identifiers (snd (init_cb ms c' s)) c)"
      by (simp add: init_cb_registry bare_identifiers_clear_all)
    show "a \<in> set (bare_identifiers (snd s) c)" by (rule c(2))
  qed
  then show ?case by simp
next
  case (9 ms mods n mems st en s)
  from 9(2) have "a = n \<or> (\<exists>m\<in>set mems. a \<in> set (bare_identifiers_member (snd s) m))"
    by auto
  then show ?case
  proof
    assume "a = n"
    with 9(3) have "fst (cb_identifier ms n s) = False" by (simp add: cb_identifier_def)
    then show ?thesis by (simp add: fold_flag_False init_cb_flag_False)
  next
    assume "\<exists>m\<in>set mems. a \<in> set (bare_identifiers_member (snd s) m)"
    then obtain m where m: "m \<in> set mems" "a \<in> set (bare_identifiers_member (snd s) m)" by auto
    have "fst (fold (init_cb_member ms) mems (cb_identifier ms n s)) = False"
    proof (rule fold_reach[where Q = "\<lambda>r. a \<in> set (bare_identifiers_member r m)", OF m(1)])
      show "\<And>s. a \<in> set (bare_identifiers_member (snd s) m) \<Longrightarrow> fst (init_cb_member ms m s) = False"
        using 9(1)[OF m(1)] 9(3) by simp
      show "\<And>c s. c \<in> set mems \<Longrightarrow> fst s = False \<Longrightarrow> fst (init_cb_member ms c s) = False"
        by (simp add: init_cb_flag_False)
      show "\<And>c' s. c' \<in> set mems \<Longrightarrow> a \<in> set (bare_identifiers_member (snd s) m) \<Longrightarrow>
          a \<in> set (bare_identifiers_member (snd (init_cb_member ms c' s)) m)"
        by (simp add: init_cb_registry bare_identifiers_clear_all)
      show "a \<in> set (bare_identifiers_member (snd (cb_identifier ms n s)) m)"
        using m(2) by (simp add: snd_cb_identifier)
    qed
    then show ?thesis by simp
  qed
next
  case (10 ms pn ini s)
  show ?case
  proof (cases ini)
    case None
    with 10 show ?thesis by simp
  next
    case (Some e)
    from 10(4) Some have "a \<in> set (bare_identifiers_name (snd s) pn) \<or>
        a \<in> set (bare_identifiers (snd s) e)" by simp
    then show ?thesis
    proof
      assume "a \<in> set (bare_identifiers_name (snd s) pn)"
      from 10(2)[OF Some this 10(5)] Some show ?thesis by (simp add: init_cb_flag_False)
    next
      assume "a \<in> set (bare_identifiers (snd s) e)"
      then have "a \<in> set (bare_identifiers (snd (init_cb_name ms pn s)) e)"
        by (simp add: init_cb_registry bare_identifiers_clear_all)
      from 10(3)[OF Some this 10(5)] Some show ?thesis by simp
    qed
  qed
next
  case (11 ms t s)
  then show ?case by (simp add: cb_identifier_def)
qed simp_all

lemma getEnumInScope_isConstInitializer:
  "k \<notin> set (dynamic_bases ini) \<Longrightarrow>
     getEnumInScope k (snd (isConstInitializer ini ms enums)) = getEnumInScope k enums"
  by (simp add: isConstInitializer_def init_cb_registry getEnumInScope_clear_all)

lemma visitMember_other:
  assumes "getEnumInScope n enums = Some track" and "k \<noteq> n" and "k \<notin> set (member_bases m)"
  shows "getEnumInScope k (visitMember n m enums) = getEnumInScope k enums"
proof -
  from visitMember_shape[OF assms(1), of m] obtain b where
    "\<exists>ts. set ts \<subseteq> set (member_bases m) \<and> (initializer m = None \<longrightarrow> b \<and> ts = []) \<and>
       visitMember n m enums =
         modify n (record_member (getPropertyName (member_name m)) b) (clear_all ts enums)" ..
  then obtain ts where st: "set ts \<subseteq> set (member_bases m) \<and> (initializer m = None \<longrightarrow> b \<and> ts = []) \<and>
       visitMember n m enums =
         modify n (record_member (getPropertyName (member_name m)) b) (clear_all ts enums)" ..
  from st have sub: "set ts \<subseteq> set (member_bases m)" by (rule conjunct1)
  from st have eq: "visitMember n m enums =
         modify n (record_member (getPropertyName (member_name m)) b) (clear_all ts enums)"
    by (rule conjunct2[THEN conjunct2])
  from sub assms(3) have "k \<notin> set ts" by auto
  with assms(2) show ?thesis
    by (simp add: eq getEnumInScope_modify getEnumInScope_clear_all)
qed

lemma visitMember_recorded:
  assumes "getEnumInScope n enums = Some track" and "\<not> isConst track"
  shows "map_option (\<lambda>tr. members tr (getPropertyName pn))
      (getEnumInScope n (visitMember n (EnumMember pn (Some ini)) enums)) =
    Some (Some (fst (isConstInitializer ini (members track) enums)))"
proof -
  let ?r = "isConstInitializer ini (members track) enums"
  have "getEnumInScope n (snd ?r) \<noteq> None"
    using assms(1)
    by (simp add: isConstInitializer_def init_cb_registry getEnumInScope_clear_all)
  then obtain tr where tr: "getEnumInScope n (snd ?r) = Some tr" by auto
  from assms have "visitMember n (EnumMember pn (Some ini)) enums =
      modify n (\<lambda>tr. tr\<lparr>canBeConst := canBeConst tr \<and> fst ?r,
                         members := (members tr)(getPropertyName pn \<mapsto> fst ?r)\<rparr>) (snd ?r)"
    by (simp add: visitMember_def getEnumInScope_def split_beta)
  then show ?thesis by (simp add: getEnumInScope_modify tr)
qed

text \<open>
  Claim C10, as amended. The tree walk hands an enum declaration to the declaration
  processor and does not descend into it, so the identifiers of an initializer never reach
  the usage validator. The evaluator changes the registry only at the bases of dynamic
  indexed accesses, and its identifier branch only reads the enclosing enum's member map.
  So a bare identifier anywhere inside a member initializer never clears the enum it
  names: every tracked enum that is not the base of a dynamic indexed access in the
  initializer keeps its entry through the evaluation and, the enclosing enum apart, through
  the processing of the member. An identifier the evaluator visits that names no member
  recorded constant makes the member non-constant, unless the enclosing enum is already
  const. A member whose whole initializer is the identifier is recorded constant iff the
  enclosing enum is already const or the identifier names a sibling recorded constant.
\<close>

theorem identifier_initializer_other_enums:
  assumes "getEnumInScope n enums = Some track"
  shows "(\<forall>k. k \<notin> set (dynamic_bases ini) \<longrightarrow>
        getEnumInScope k (snd (isConstInitializer ini ms enums)) = getEnumInScope k enums) \<and>
     (\<forall>k. k \<noteq> n \<and> k \<notin> set (dynamic_bases ini) \<longrightarrow>
        getEnumInScope k (visitMember n (EnumMember pn (Some ini)) enums) =
        getEnumInScope k enums) \<and>
     (a \<in> set (bare_identifiers enums ini) \<and> members track (Some a) \<noteq> Some True \<and>
      \<not> isConst track \<longrightarrow>
        fst (isConstInitializer ini (members track) enums) = False \<and>
        map_option (\<lambda>tr. members tr (getPropertyName pn))
          (getEnumInScope n (visitMember n (EnumMember pn (Some ini)) enums)) =
          Some (Some False)) \<and>
     dynamic_bases (Identifier a) = [] \<and>
     isConstInitializer (Identifier a) (members track) enums =
       (members track (Some a) = Some True, enums) \<and>
     (\<forall>k. k \<noteq> n \<longrightarrow>
        getEnumInScope k (visitMember n (EnumMember pn (Some (Identifier a))) enums) =
        getEnumInScope k enums) \<and>
     map_option (\<lambda>tr. members tr (getPropertyName pn))
        (getEnumInScope n (visitMember n (EnumMember pn (Some (Identifier a))) enums)) =
       Some (Some (isConst track \<or> members track (Some a) = Some True)) \<and>
     walk_cb parent role (EnumDeclarationNode d) enums = visitEnumDeclaration d enums"
proof (intro conjI allI impI)
  fix k assume "k \<notin> set (dynamic_bases ini)"
  then show "getEnumInScope k (snd (isConstInitializer ini ms enums)) = getEnumInScope k enums"
    by (rule getEnumInScope_isConstInitializer)
next
  fix k assume "k \<noteq> n \<and> k \<notin> set (dynamic_bases ini)"
  then show "getEnumInScope k (visitMember n (EnumMember pn (Some ini)) enums) =
      getEnumInScope k enums"
    by (intro visitMember_other[OF assms]) (simp_all add: member_bases_def)
next
  assume h: "a \<in> set (bare_identifiers enums ini) \<and> members track (Some a) \<noteq> Some True \<and>
      \<not> isConst track"
  then show fl: "fst (isConstInitializer ini (members track) enums) = False"
    using init_cb_bare_identifier(1)[of a "(True, enums)" ini "members track"]
    by (simp add: isConstInitializer_def)
  from h have "\<not> isConst track" by simp
  from visitMember_recorded[OF assms this, of pn ini] fl
  show "map_option (\<lambda>tr. members tr (getPropertyName pn))
          (getEnumInScope n (visitMember n (EnumMember pn (Some ini)) enums)) =
          Some (Some False)"
    by simp
next
  show "dynamic_bases (Identifier a) = []" by (simp add: dynamic_bases_def)
next
  show "isConstInitializer (Identifier a) (members track) enums =
       (members track (Some a) = Some True, enums)"
    by (rule isConstInitializer_Identifier)
next
  fix k assume "k \<noteq> n"
  then show "getEnumInScope k (visitMember n (EnumMember pn (Some (Identifier a))) enums) =
        getEnumInScope k enums"
    using assms by (simp add: visitMember_Identifier getEnumInScope_modify)
next
  show "map_option (\<lambda>tr. members tr (getPropertyName pn))
        (getEnumInScope n (visitMember n (EnumMember pn (Some (Identifier a))) enums)) =
       Some (Some (isConst track \<or> members track (Some a) = Some True))"
    using assms by (simp add: visitMember_Identifier getEnumInScope_modify)
next
  show "walk_cb parent role (EnumDeclarationNode d) enums = visitEnumDeclaration d enums"
    by simp
qed

text \<open>
  The theorem at \<^verbatim>\<open>enum N { Y = f(A) }\<close> and at \<^verbatim>\<open>enum D { Y = A }\<close>, each after
  \<^verbatim>\<open>enum A { X = 1 }\<close>: the entry of \<open>A\<close> is unchanged and \<open>Y\<close> is recorded non-constant.
\<close>

theorem identifier_initializer_other_enums_witness:
  "getEnumInScope ''N'' (addEnum enum_N registry_A) =
     Some \<lparr>name = ''N'', isConst = False, occurences = [enum_N], members = Map.empty,
           canBeConst = True\<rparr> \<and>
   ''A'' \<notin> set (dynamic_bases f_A) \<and>
   ''A'' \<in> set (bare_identifiers (addEnum enum_N registry_A) f_A) \<and>
   getEnumInScope ''A''
     (visitMember ''N'' (EnumMember (IdentifierName ''Y'') (Some f_A))
        (addEnum enum_N registry_A)) = Some track_A \<and>
   map_option (\<lambda>tr. members tr (Some ''Y''))
     (getEnumInScope ''N''
        (visitMember ''N'' (EnumMember (IdentifierName ''Y'') (Some f_A))
           (addEnum enum_N registry_A))) = Some (Some False) \<and>
   getEnumInScope ''A''
     (visitMember ''D'' (EnumMember (IdentifierName ''Y'') (Some (Identifier ''A'')))
        (addEnum enum_D registry_A)) = Some track_A \<and>
   enums_after [EnumDeclarationNode enum_A, EnumDeclarationNode enum_N] =
     [(''A'', track_A),
      (''N'', \<lparr>name = ''N'', isConst = False, occurences = [enum_N],
              members = [Some ''Y'' \<mapsto> False], canBeConst = False\<rparr>)] \<and>
   enums_after [EnumDeclarationNode enum_A, EnumDeclarationNode enum_D] =
     [(''A'', track_A),
      (''D'', \<lparr>name = ''D'', isConst = False, occurences = [enum_D],
              members = [Some ''Y'' \<mapsto> False], canBeConst = False\<rparr>)]"
proof -
  let ?tN = "\<lparr>name = ''N'', isConst = False, occurences = [enum_N], members = Map.empty,
           canBeConst = True\<rparr>"
  let ?tD = "\<lparr>name = ''D'', isConst = False, occurences = [enum_D], members = Map.empty,
           canBeConst = True\<rparr>"
  have gN: "getEnumInScope ''N'' (addEnum enum_N registry_A) = Some ?tN"
    by (simp add: registry_A_eq enum_N_def run_defs)
  have gD: "getEnumInScope ''D'' (addEnum enum_D registry_A) = Some ?tD"
    by (simp add: registry_A_eq enum_D_def run_defs)
  have gA: "getEnumInScope ''A'' (addEnum enum_N registry_A) = Some track_A"
    "getEnumInScope ''A'' (addEnum enum_D registry_A) = Some track_A"
    by (simp_all add: registry_A_eq enum_N_def enum_D_def run_defs)
  have nd: "''A'' \<notin> set (dynamic_bases f_A)"
    by (simp add: f_A_def dynamic_bases_def)
  have bi: "''A'' \<in> set (bare_identifiers (addEnum enum_N registry_A) f_A)"
    by (simp add: f_A_def)
  note t = identifier_initializer_other_enums[OF gN, where ini = f_A and a = "''A''"
      and pn = "IdentifierName ''Y''"]
  from t nd gA(1) have 1: "getEnumInScope ''A''
     (visitMember ''N'' (EnumMember (IdentifierName ''Y'') (Some f_A))
        (addEnum enum_N registry_A)) = Some track_A"
    by simp
  from t bi have 2: "map_option (\<lambda>tr. members tr (Some ''Y''))
     (getEnumInScope ''N''
        (visitMember ''N'' (EnumMember (IdentifierName ''Y'') (Some f_A))
           (addEnum enum_N registry_A))) = Some (Some False)"
    by simp
  from identifier_initializer_other_enums[OF gD, where a = "''A''" and pn = "IdentifierName ''Y''"]
    gA(2)
  have 3: "getEnumInScope ''A''
     (visitMember ''D'' (EnumMember (IdentifierName ''Y'') (Some (Identifier ''A'')))
        (addEnum enum_D registry_A)) = Some track_A"
    by simp
  have 4: "enums_after [EnumDeclarationNode enum_A, EnumDeclarationNode enum_N] =
     [(''A'', track_A),
      (''N'', \<lparr>name = ''N'', isConst = False, occurences = [enum_N],
              members = [Some ''Y'' \<mapsto> False], canBeConst = False\<rparr>)]"
    by (simp add: registry_A_eq track_A_def enum_A_def enum_N_def f_A_def run_defs)
  have 5: "enums_after [EnumDeclarationNode enum_A, EnumDeclarationNode enum_D] =
     [(''A'', track_A),
      (''D'', \<lparr>name = ''D'', isConst = False, occurences = [enum_D],
              members = [Some ''Y'' \<mapsto> False], canBeConst = False\<rparr>)]"
    by (simp add: registry_A_eq track_A_def enum_A_def enum_D_def run_defs)
  from gN nd bi 1 2 3 4 5 show ?thesis by simp
qed

text \<open>
  Claim C10 as stated fails at \<^verbatim>\<open>enum C { A, Y = A }\<close> after \<^verbatim>\<open>enum A { X = 1 }\<close>: the
  identifier \<open>A\<close> names the tracked enum \<open>A\<close>, and \<open>Y\<close> is recorded constant. It fails too
  at \<^verbatim>\<open>enum S { Y = S }\<close>: the identifier names the enclosing enum, tracked since its
  declaration was entered, and that enum loses \<open>canBeConst\<close> because \<open>Y\<close> is non-constant.
\<close>

theorem identifier_naming_enum_and_sibling_counterexample:
  "getEnumInScope ''A'' registry_A = Some track_A \<and>
   enums_after [EnumDeclarationNode enum_A, EnumDeclarationNode enum_C] =
     [(''A'', track_A),
      (''C'', \<lparr>name = ''C'', isConst = False, occurences = [enum_C],
              members = [Some ''A'' \<mapsto> True, Some ''Y'' \<mapsto> True], canBeConst = True\<rparr>)] \<and>
   getEnumInScope ''S'' (addEnum enum_S []) =
     Some \<lparr>name = ''S'', isConst = False, occurences = [enum_S], members = Map.empty,
           canBeConst = True\<rparr> \<and>
   enums_after [EnumDeclarationNode enum_S] =
     [(''S'', \<lparr>name = ''S'', isConst = False, occurences = [enum_S],
              members = [Some ''Y'' \<mapsto> False], canBeConst = False\<rparr>)]"
  by (simp add: registry_A_eq track_A_def enum_A_def enum_C_def enum_S_def run_defs)

end
